theory Spec2Isabelle
  imports Main "HOL-Library.Sublist"
begin

section \<open>The Python module reloader (reloader.py)\<close>

text \<open>
  The reloader keeps five module-level globals (\<open>_blacklist\<close>, \<open>_dependencies\<close>,
  \<open>_parent\<close>, \<open>_parent_from_list\<close> and the installed \<open>builtins.__import__\<close>) and
  drives three operations of the Python host that it does not implement itself: the
  original import function \<open>_baseimport\<close>, \<open>imp.reload\<close> and \<open>copy.deepcopy\<close>,
  besides calling a module's \<open>__reload__\<close> attribute. The embedding passes the globals
  as an explicit record, takes the host operations as parameters (arbitrary functions
  on the whole state, since running a module body may re-enter the reloader), and
  turns every \<open>raise\<close> into a value.

  Python names that start with an underscore are written with the prefix \<open>priv_\<close>
  (\<open>_reload\<close> is \<open>priv_reload\<close>); the globals drop the underscore.
\<close>

subsection \<open>Values, objects and exceptions\<close>

text \<open>
  A Python value is \<open>None\<close>, a string, or a reference to an object with attributes.
  References compare by identity, as module objects do under \<open>==\<close>, \<open>in\<close> and
  hashing. An object carries the flag \<open>isinstance(x, types.ModuleType)\<close> and its
  attribute dictionary (\<open>vars(x)\<close>), an association list read from the front.
\<close>

datatype pyval = PNone | PStr string | PRef nat

record pyobj =
  is_module :: bool
  attrs :: "(string \<times> pyval) list"

datatype exn = AttributeError | KeyError | TypeError | HostError string

datatype ('a, 's) outcome = Return 'a 's | Raise exn 's

subsection \<open>The state\<close>

record 'h world =
  blacklist :: "pyval set option"
  dependencies :: "pyval \<Rightarrow> pyval list option"
  parent :: pyval
  parent_from_list :: "string list option"
  import_hooked :: bool
  objs :: "nat \<Rightarrow> pyobj"
  sys_modules :: "string \<Rightarrow> pyval option"
  host_state :: 'h

text \<open>
  \<open>import_hooked\<close> says whether \<open>builtins.__import__\<close> is \<open>_import\<close> (True) or
  \<open>_baseimport\<close> (False). \<open>objs\<close> is the heap of objects and \<open>sys_modules\<close> is
  \<open>sys.modules\<close>; both belong to the host, as does \<open>host_state\<close> (whatever else the
  host keeps, such as the files on disk).
\<close>

definition initial_world :: "(nat \<Rightarrow> pyobj) \<Rightarrow> (string \<Rightarrow> pyval option) \<Rightarrow> 'h \<Rightarrow> 'h world" where
  "initial_world os sm hs =
     \<lparr>blacklist = None, dependencies = (\<lambda>k. None), parent = PNone,
      parent_from_list = None, import_hooked = False, objs = os, sys_modules = sm,
      host_state = hs\<rparr>"

subsection \<open>Attribute access\<close>

text \<open>
  \<open>getattr(x, name)\<close> looks the name up in the object's dictionary and raises
  AttributeError when it is missing; \<open>None\<close> and strings carry none of the attributes
  the reloader asks for. \<open>hasattr\<close> and the three-argument \<open>getattr\<close> follow.
\<close>

definition getattr :: "'h world \<Rightarrow> pyval \<Rightarrow> string \<Rightarrow> exn + pyval" where
  "getattr w x a =
     (case x of
        PRef r \<Rightarrow> (case map_of (attrs (objs w r)) a of
                     None \<Rightarrow> Inl AttributeError
                   | Some v \<Rightarrow> Inr v)
      | _ \<Rightarrow> Inl AttributeError)"

definition hasattr :: "'h world \<Rightarrow> pyval \<Rightarrow> string \<Rightarrow> bool" where
  "hasattr w x a = (case getattr w x a of Inl e \<Rightarrow> False | Inr v \<Rightarrow> True)"

definition getattr_default :: "'h world \<Rightarrow> pyval \<Rightarrow> string \<Rightarrow> pyval \<Rightarrow> pyval" where
  "getattr_default w x a d = (case getattr w x a of Inl e \<Rightarrow> d | Inr v \<Rightarrow> v)"

definition isinstance_module :: "'h world \<Rightarrow> pyval \<Rightarrow> bool" where
  "isinstance_module w x = (case x of PRef r \<Rightarrow> is_module (objs w r) | _ \<Rightarrow> False)"

text \<open>\<open>a + '.' + b\<close> on a value and a string: TypeError unless the value is a string.\<close>

definition dotted :: "pyval \<Rightarrow> string \<Rightarrow> exn + string" where
  "dotted nm b = (case nm of PStr s \<Rightarrow> Inr (s @ ''.'' @ b) | _ \<Rightarrow> Inl TypeError)"

text \<open>
  The expression \<open>x.__name__ if isinstance(x, types.ModuleType) else x\<close>, used by
  \<open>get_dependencies\<close> and \<open>_add_dependency\<close> to find the key of the graph.
\<close>

definition key_of :: "'h world \<Rightarrow> pyval \<Rightarrow> exn + pyval" where
  "key_of w x = (if isinstance_module w x then getattr w x ''__name__'' else Inr x)"

subsection \<open>enable, disable, get\_dependencies\<close>

definition enable :: "pyval list option \<Rightarrow> 'h world \<Rightarrow> 'h world" where
  "enable bl w =
     (let w1 = w\<lparr>import_hooked := True\<rparr>
      in case bl of None \<Rightarrow> w1 | Some names \<Rightarrow> w1\<lparr>blacklist := Some (set names)\<rparr>)"

definition disable :: "'h world \<Rightarrow> 'h world" where
  "disable w =
     w\<lparr>import_hooked := False, blacklist := None, dependencies := (\<lambda>k. None),
       parent := PNone\<rparr>"

definition get_dependencies :: "'h world \<Rightarrow> pyval \<Rightarrow> exn + pyval list option" where
  "get_dependencies w m =
     (case key_of w m of Inl e \<Rightarrow> Inl e | Inr name \<Rightarrow> Inr (dependencies w name))"

subsection \<open>\_add\_dependency\<close>

text \<open>
  \<open>for m in [mod] + (mod_subs or []): if m not in l: l.append(m)\<close> on the list
  \<open>l\<close>.
\<close>

fun append_absent :: "pyval list \<Rightarrow> pyval list \<Rightarrow> pyval list" where
  "append_absent l [] = l"
| "append_absent l (m # ms) = append_absent (if m \<in> set l then l else l @ [m]) ms"

definition priv_add_dependency ::
  "pyval \<Rightarrow> pyval \<Rightarrow> pyval list \<Rightarrow> 'h world \<Rightarrow> (unit, 'h world) outcome" where
  "priv_add_dependency p modl mod_subs w =
     (case key_of w p of
        Inl e \<Rightarrow> Raise e w
      | Inr k \<Rightarrow>
          (let l = (case dependencies w k of None \<Rightarrow> [] | Some l0 \<Rightarrow> l0)
           in Return () (w\<lparr>dependencies := (dependencies w)(k \<mapsto> append_absent l (modl # mod_subs))\<rparr>)))"

subsection \<open>The host\<close>

text \<open>
  The operations of the Python host that the reloader calls. Each may run arbitrary
  code (a module body, a hook), so each is a function on the whole state that returns
  or raises:
  \<^item> \<open>baseimport\<close> is \<open>_baseimport(name, globals, locals, fromlist, level)\<close>;
  \<^item> \<open>imp_reload\<close> is \<open>imp.reload(m)\<close> (its result is discarded by the caller);
  \<^item> \<open>call_hook\<close> is the call \<open>callback(d)\<close> of a module's \<open>__reload__\<close> value;
  \<^item> \<open>deepcopy\<close> is \<open>copy.deepcopy(d)\<close> on a dictionary.
\<close>

type_synonym pydict = "(string \<times> pyval) list"

record 'h host =
  baseimport :: "string \<Rightarrow> (string \<Rightarrow> pyval option) option \<Rightarrow> (string \<Rightarrow> pyval option) option
                  \<Rightarrow> string list option \<Rightarrow> int \<Rightarrow> 'h world \<Rightarrow> (pyval, 'h world) outcome"
  imp_reload :: "pyval \<Rightarrow> 'h world \<Rightarrow> (unit, 'h world) outcome"
  call_hook :: "pyval \<Rightarrow> pydict \<Rightarrow> 'h world \<Rightarrow> (unit, 'h world) outcome"
  deepcopy :: "pydict \<Rightarrow> 'h world \<Rightarrow> (pydict, 'h world) outcome"

subsection \<open>\_import\<close>

text \<open>\<open>s.split(c)\<close> for a separator of one character.\<close>

fun split_on :: "char \<Rightarrow> string \<Rightarrow> string list" where
  "split_on c [] = [[]]"
| "split_on c (x # xs) =
     (if x = c then [] # split_on c xs
      else (case split_on c xs of [] \<Rightarrow> [[x]] | y # ys \<Rightarrow> (x # y) # ys))"

text \<open>
  The walk through the imported hierarchy (lines 185 to 189), for a plain
  \<open>import a.b.c\<close>: each component is an attribute of the current object or, when
  \<open>getattr\<close> raises AttributeError, the entry \<open>sys.modules[m.__name__ + '.' + component]\<close>
  (KeyError when missing).
\<close>

fun walk_components :: "'h world \<Rightarrow> pyval \<Rightarrow> string list \<Rightarrow> exn + pyval" where
  "walk_components w m [] = Inr m"
| "walk_components w m (component # cs) =
     (case getattr w m component of
        Inr v \<Rightarrow> walk_components w v cs
      | Inl e \<Rightarrow>
          (case getattr w m ''__name__'' of
             Inl e' \<Rightarrow> Inl e'
           | Inr nm \<Rightarrow>
               (case dotted nm component of
                  Inl e' \<Rightarrow> Inl e'
                | Inr k \<Rightarrow>
                    (case sys_modules w k of
                       None \<Rightarrow> Inl KeyError
                     | Some v \<Rightarrow> walk_components w v cs))))"

text \<open>
  The loop over the from-list (lines 197 to 209), collecting \<open>m_sub\<close>. An exception
  in the body is printed and raised again.
\<close>

fun collect_submodules :: "'h world \<Rightarrow> pyval \<Rightarrow> string list \<Rightarrow> pyval list \<Rightarrow> exn + pyval list" where
  "collect_submodules w m [] m_sub = Inr m_sub"
| "collect_submodules w m (fromname # fs) m_sub =
     (case (if \<not> hasattr w m fromname
            then (case getattr w m ''__name__'' of
                    Inl e \<Rightarrow> Inl e
                  | Inr nm \<Rightarrow>
                      (case dotted nm fromname of
                         Inl e \<Rightarrow> Inl e
                       | Inr k \<Rightarrow> Inr (case sys_modules w k of None \<Rightarrow> PNone | Some v \<Rightarrow> v)))
            else getattr w m fromname) of
        Inl e \<Rightarrow> Inl e
      | Inr submodule \<Rightarrow>
          if isinstance_module w submodule then
            (case getattr w m ''__name__'' of
               Inl e \<Rightarrow> Inl e
             | Inr nm \<Rightarrow>
                 if submodule \<notin> set (case dependencies w nm of None \<Rightarrow> [] | Some l \<Rightarrow> l)
                 then collect_submodules w m fs (m_sub @ [submodule])
                 else collect_submodules w m fs m_sub)
          else collect_submodules w m fs m_sub)"

text \<open>
  Lines 175 to 209: the primary module \<open>m\<close> and the extra submodules \<open>m_sub\<close> of an
  import that returned \<open>base\<close>. The from-list \<open>('*',)\<close> is the list with the one
  name \<open>*\<close>.
\<close>

definition resolve_import ::
  "'h world \<Rightarrow> string \<Rightarrow> string list option \<Rightarrow> pyval \<Rightarrow> exn + (pyval \<times> pyval list)" where
  "resolve_import w name fromlist base =
     (case fromlist of
        None \<Rightarrow>
          (case walk_components w base (tl (split_on (CHR ''.'') name)) of
             Inl e \<Rightarrow> Inl e
           | Inr m \<Rightarrow> Inr (m, []))
      | Some fl \<Rightarrow>
          if fl \<noteq> [''*''] then
            (case collect_submodules w base fl [] of
               Inl e \<Rightarrow> Inl e
             | Inr m_sub \<Rightarrow> Inr (base, m_sub))
          else Inr (base, []))"

text \<open>Truth of a value in a condition: \<open>None\<close> and the empty string are false.\<close>

definition truthy :: "pyval \<Rightarrow> bool" where
  "truthy v = (case v of PNone \<Rightarrow> False | PStr s \<Rightarrow> s \<noteq> [] | PRef r \<Rightarrow> True)"

definition dict_get :: "(string \<Rightarrow> pyval option) \<Rightarrow> string \<Rightarrow> pyval" where
  "dict_get g k = (case g k of None \<Rightarrow> PNone | Some v \<Rightarrow> v)"

text \<open>
  Lines 215 to 223: the parent an import nested under \<open>parent\<close> is attributed to.
  \<open>len(parent)\<close> raises TypeError on a value that is not a string.
\<close>

definition actual_parent ::
  "'h world \<Rightarrow> pyval \<Rightarrow> string list option \<Rightarrow> (string \<Rightarrow> pyval option) option \<Rightarrow> exn + pyval" where
  "actual_parent w par par_from_list globals =
     (case globals of
        None \<Rightarrow> Inr par
      | Some g \<Rightarrow>
          (case par of
             PStr p \<Rightarrow>
               if p \<noteq> [] \<and> (case par_from_list of None \<Rightarrow> False | Some fl \<Rightarrow> fl \<noteq> []) then
                 (case dict_get g ''__name__'' of
                    PStr caller_mod_name \<Rightarrow>
                      if sys_modules w caller_mod_name \<noteq> None
                         \<and> prefix (p @ ''.'') caller_mod_name
                         \<and> drop (length (p @ ''.'')) caller_mod_name
                             \<in> set (case par_from_list of None \<Rightarrow> [] | Some fl \<Rightarrow> fl)
                      then Inr (PStr caller_mod_name)
                      else Inr par
                  | _ \<Rightarrow> Inr par)
               else Inr par
           | _ \<Rightarrow> Inl TypeError))"

text \<open>Lines 213 to 232: record the edges of a resolved import.\<close>

definition record_import ::
  "pyval \<Rightarrow> string list option \<Rightarrow> (string \<Rightarrow> pyval option) option \<Rightarrow> pyval \<Rightarrow> pyval list
     \<Rightarrow> 'h world \<Rightarrow> (unit, 'h world) outcome" where
  "record_import par par_from_list globals m m_sub w =
     (if hasattr w m ''__file__'' then
        if par \<noteq> PNone then
          (case actual_parent w par par_from_list globals of
             Inl e \<Rightarrow> Raise e w
           | Inr ap \<Rightarrow> priv_add_dependency ap m m_sub w)
        else
          (case globals of
             None \<Rightarrow> Return () w
           | Some g \<Rightarrow>
               (let caller_mod_name = dict_get g ''__name__'';
                    rt_parent =
                      (if truthy caller_mod_name
                       then (case caller_mod_name of
                               PStr s \<Rightarrow> (case sys_modules w s of None \<Rightarrow> PNone | Some v \<Rightarrow> v)
                             | _ \<Rightarrow> PNone)
                       else caller_mod_name)
                in if rt_parent \<noteq> PNone then priv_add_dependency rt_parent m m_sub w
                   else Return () w))
      else Return () w)"

text \<open>
  \<open>_import(name, globals, locals, fromlist, level)\<close>. The context is saved and
  replaced, the base import runs, the edges are recorded, the context is restored and
  \<open>base\<close> returned. No statement of the function catches an exception of the base
  import or of the recording: it leaves the function where it is raised.
\<close>

definition priv_import ::
  "'h host \<Rightarrow> string \<Rightarrow> (string \<Rightarrow> pyval option) option \<Rightarrow> (string \<Rightarrow> pyval option) option
     \<Rightarrow> string list option \<Rightarrow> int \<Rightarrow> 'h world \<Rightarrow> (pyval, 'h world) outcome" where
  "priv_import h name globals locals fromlist level w =
     (let par = parent w;
          par_from_list = parent_from_list w;
          w1 = w\<lparr>parent := PStr name, parent_from_list := fromlist\<rparr>
      in case baseimport h name globals locals fromlist level w1 of
           Raise e w2 \<Rightarrow> Raise e w2
         | Return base w2 \<Rightarrow>
             (case (if base \<noteq> PNone then
                      (case resolve_import w2 name fromlist base of
                         Inl e \<Rightarrow> Raise e w2
                       | Inr (m, m_sub) \<Rightarrow> record_import par par_from_list globals m m_sub w2)
                    else Return () w2) of
                Raise e w3 \<Rightarrow> Raise e w3
              | Return u w3 \<Rightarrow>
                  Return base (w3\<lparr>parent := par, parent_from_list := par_from_list\<rparr>)))"

subsection \<open>\_deepcopy\_module\_dict\<close>

text \<open>
  The function starts with the statement \<open>import copy\<close> (line 81). An import
  statement calls whatever \<open>builtins.__import__\<close> is at that moment, the interceptor
  or the base import, with the name, the globals of the module that holds the
  statement (here the reloader's own, whose \<open>__name__\<close> is \<open>reloader\<close>), no
  from-list and level 0 (the level of a plain import statement in Python 3; the
  interceptor does not look at the level, it hands it to the base import); inside a
  function no locals are passed.
\<close>

definition reloader_globals :: "string \<Rightarrow> pyval option" where
  "reloader_globals = [''__name__'' \<mapsto> PStr ''reloader'']"

definition import_copy :: "'h host \<Rightarrow> 'h world \<Rightarrow> (pyval, 'h world) outcome" where
  "import_copy h w =
     (if import_hooked w
      then priv_import h ''copy'' (Some reloader_globals) None None 0 w
      else baseimport h ''copy'' (Some reloader_globals) None None 0 w)"

text \<open>
  \<open>import copy; d = vars(m).copy(); del d['__builtins__']; return copy.deepcopy(d)\<close>.
  \<open>vars\<close> raises TypeError on a value without a dictionary, \<open>del\<close> raises KeyError
  when the key is missing. \<open>copy.deepcopy\<close> is the host's \<open>deepcopy\<close>.
\<close>

definition del_key :: "string \<Rightarrow> pydict \<Rightarrow> pydict" where
  "del_key k d = filter (\<lambda>kv. fst kv \<noteq> k) d"

definition priv_deepcopy_module_dict ::
  "'h host \<Rightarrow> pyval \<Rightarrow> 'h world \<Rightarrow> (pydict, 'h world) outcome" where
  "priv_deepcopy_module_dict h m w =
     (case import_copy h w of
        Raise e wi \<Rightarrow> Raise e wi
      | Return c wi \<Rightarrow>
          (case m of
             PRef r \<Rightarrow>
               (let d = attrs (objs wi r)
                in if ''__builtins__'' \<in> fst ` set d
                   then deepcopy h (del_key ''__builtins__'' d) wi
                   else Raise KeyError wi)
           | _ \<Rightarrow> Raise TypeError wi))"

subsection \<open>\_reload and reload\<close>

text \<open>
  The state of one \<open>reload\<close> call: the \<open>visited\<close> set created by \<open>reload\<close> and
  shared by every recursive \<open>_reload\<close>, the globals, and \<open>calls\<close>, the log of the
  host operations the traversal has invoked so far (instrumentation: the host
  functions cannot see or change it).
\<close>

datatype event = EvReload pyval | EvHook pyval pydict

record 'h rstate =
  visited :: "pyval set"
  calls :: "event list"
  glob :: "'h world"

text \<open>\<open>if _blacklist and name in _blacklist\<close>: an empty frozenset is false.\<close>

definition in_blacklist :: "'h world \<Rightarrow> pyval \<Rightarrow> bool" where
  "in_blacklist w name =
     (case blacklist w of None \<Rightarrow> False | Some bl \<Rightarrow> bl \<noteq> {} \<and> name \<in> bl)"

text \<open>
  The second half of \<open>_reload\<close> (lines 122 to 150): drop the module's entry of the
  graph (\<open>del\<close>, KeyError ignored), set \<open>_parent\<close>, reload the module (with the
  snapshot and the hook when \<open>__reload__\<close> is not None), reset \<open>_parent\<close>. There is
  no \<open>try\<close> around the host calls: an exception leaves the function at once.
\<close>

definition reload_module :: "'h host \<Rightarrow> pyval \<Rightarrow> pyval \<Rightarrow> 'h rstate \<Rightarrow> (unit, 'h rstate) outcome" where
  "reload_module h m name rs =
     (let w1 = (glob rs)\<lparr>dependencies := (dependencies (glob rs))(name := None), parent := name\<rparr>;
          callback = getattr_default w1 m ''__reload__'' PNone
      in if callback \<noteq> PNone then
           (case priv_deepcopy_module_dict h m w1 of
              Raise e w2 \<Rightarrow> Raise e (rs\<lparr>glob := w2\<rparr>)
            | Return d w2 \<Rightarrow>
                (case imp_reload h m w2 of
                   Raise e w3 \<Rightarrow> Raise e (rs\<lparr>calls := calls rs @ [EvReload m], glob := w3\<rparr>)
                 | Return u w3 \<Rightarrow>
                     (case call_hook h callback d w3 of
                        Raise e w4 \<Rightarrow>
                          Raise e (rs\<lparr>calls := calls rs @ [EvReload m, EvHook callback d], glob := w4\<rparr>)
                      | Return u' w4 \<Rightarrow>
                          Return () (rs\<lparr>calls := calls rs @ [EvReload m, EvHook callback d],
                                       glob := w4\<lparr>parent := PNone\<rparr>\<rparr>))))
         else
           (case imp_reload h m w1 of
              Raise e w3 \<Rightarrow> Raise e (rs\<lparr>calls := calls rs @ [EvReload m], glob := w3\<rparr>)
            | Return u w3 \<Rightarrow>
                Return () (rs\<lparr>calls := calls rs @ [EvReload m], glob := w3\<lparr>parent := PNone\<rparr>\<rparr>)))"

text \<open>
  The loop \<open>for dep in reversed(deps)\<close> over the list it is given (already reversed),
  with the recursive call as the parameter \<open>rec\<close>. \<open>None\<close> is a recursion that did
  not finish within the depth allowed.
\<close>

fun reload_deps ::
  "(pyval \<Rightarrow> 'h rstate \<Rightarrow> (unit, 'h rstate) outcome option) \<Rightarrow> (pyval \<Rightarrow> bool) option
     \<Rightarrow> pyval list \<Rightarrow> 'h rstate \<Rightarrow> (unit, 'h rstate) outcome option" where
  "reload_deps rec scope [] rs = Some (Return () rs)"
| "reload_deps rec scope (dep # deps) rs =
     (if dep \<in> visited rs then reload_deps rec scope deps rs
      else if (case scope of None \<Rightarrow> False | Some s \<Rightarrow> \<not> s dep) then reload_deps rec scope deps rs
      else (case rec dep rs of
              None \<Rightarrow> None
            | Some (Raise e rs') \<Rightarrow> Some (Raise e rs')
            | Some (Return u rs') \<Rightarrow> reload_deps rec scope deps rs'))"

text \<open>
  \<open>_reload(m, visited, scope, verbose)\<close>. The first argument bounds the depth of the
  recursion (Python's recursion limit): at depth 0 there is no result. \<open>verbose\<close>
  only prints and is left out. \<open>scope\<close> is None or a predicate on module objects
  (the assertion on line 92), taken to answer without an effect on the state. The list \<open>deps\<close> is read once, before the loop; the
  reversed iterator walks the list object downwards from its last index, and the list
  objects of the graph are only ever appended to, so the loop sees the elements the
  list had when the loop began.
\<close>

primrec priv_reload ::
  "nat \<Rightarrow> 'h host \<Rightarrow> (pyval \<Rightarrow> bool) option \<Rightarrow> pyval \<Rightarrow> 'h rstate
     \<Rightarrow> (unit, 'h rstate) outcome option" where
  "priv_reload 0 h scope m rs = None"
| "priv_reload (Suc n) h scope m rs =
     (case getattr (glob rs) m ''__name__'' of
        Inl e \<Rightarrow> Some (Raise e rs)
      | Inr name \<Rightarrow>
          if in_blacklist (glob rs) name then Some (Return () rs)
          else
            (let rs1 = rs\<lparr>visited := insert m (visited rs)\<rparr>
             in case (case dependencies (glob rs1) name of
                        None \<Rightarrow> Some (Return () rs1)
                      | Some deps \<Rightarrow> reload_deps (priv_reload n h scope) scope (rev deps) rs1) of
                  None \<Rightarrow> None
                | Some (Raise e rs2) \<Rightarrow> Some (Raise e rs2)
                | Some (Return u rs2) \<Rightarrow> Some (reload_module h m name rs2)))"

definition reload ::
  "nat \<Rightarrow> 'h host \<Rightarrow> (pyval \<Rightarrow> bool) option \<Rightarrow> pyval \<Rightarrow> 'h world
     \<Rightarrow> (unit, 'h rstate) outcome option" where
  "reload n h scope m w = priv_reload n h scope m \<lparr>visited = {}, calls = [], glob = w\<rparr>"

section \<open>Observing a run\<close>

text \<open>
  The modules the traversal has handed to \<open>imp.reload\<close>, in the order of the calls;
  the state an outcome ends in; whether it is a normal return.
\<close>

definition reloaded :: "event list \<Rightarrow> pyval list" where
  "reloaded evs = concat (map (\<lambda>e. case e of EvReload m \<Rightarrow> [m] | EvHook c d \<Rightarrow> []) evs)"

fun state_of :: "('a, 's) outcome \<Rightarrow> 's" where
  "state_of (Return u s) = s"
| "state_of (Raise e s) = s"

fun returns :: "('a, 's) outcome \<Rightarrow> bool" where
  "returns (Return u s) = True"
| "returns (Raise e s) = False"

text \<open>
  What one \<open>_reload\<close> call does to the state of the traversal: the visited set only
  grows, the log is extended, and the modules reloaded by the extension are pairwise
  different and were not visited before.
\<close>

definition extends :: "'h rstate \<Rightarrow> 'h rstate \<Rightarrow> bool" where
  "extends rs rs' \<longleftrightarrow>
     visited rs \<subseteq> visited rs' \<and>
     (\<exists>new. calls rs' = calls rs @ new \<and> distinct (reloaded new)
              \<and> set (reloaded new) \<subseteq> visited rs' - visited rs)"

section \<open>Example modules and hosts\<close>

text \<open>
  A small heap: the source modules A, B and C at the references 0, 1 and 2; objects
  that are not modules elsewhere.
\<close>

definition module_obj :: "string \<Rightarrow> pyobj" where
  "module_obj nm =
     \<lparr>is_module = True,
      attrs = [(''__name__'', PStr nm), (''__file__'', PStr (nm @ ''.py'')),
               (''__builtins__'', PRef 100)]\<rparr>"

definition ex_objs :: "nat \<Rightarrow> pyobj" where
  "ex_objs r =
     (if r = 0 then module_obj ''A''
      else if r = 1 then module_obj ''B''
      else if r = 2 then module_obj ''C''
      else \<lparr>is_module = False, attrs = []\<rparr>)"

definition ex_sys_modules :: "string \<Rightarrow> pyval option" where
  "ex_sys_modules = [''A'' \<mapsto> PRef 0, ''B'' \<mapsto> PRef 1, ''C'' \<mapsto> PRef 2]"

definition ex_world :: "unit world" where
  "ex_world = initial_world ex_objs ex_sys_modules ()"

text \<open>A imports B, B imports C.\<close>

definition chain_world :: "unit world" where
  "chain_world = ex_world\<lparr>dependencies := [PStr ''A'' \<mapsto> [PRef 1], PStr ''B'' \<mapsto> [PRef 2]]\<rparr>"

text \<open>A imports B, B imports A.\<close>

definition cycle_world :: "unit world" where
  "cycle_world = ex_world\<lparr>dependencies := [PStr ''A'' \<mapsto> [PRef 1], PStr ''B'' \<mapsto> [PRef 0]]\<rparr>"

text \<open>
  A host whose operations succeed and leave the state alone: the base import finds
  the module in \<open>sys.modules\<close> (or raises), the copy is the dictionary itself.
\<close>

definition quiet_host :: "unit host" where
  "quiet_host =
     \<lparr>baseimport = (\<lambda>name globals locals fromlist level w.
         (case sys_modules w name of
            None \<Rightarrow> Raise (HostError ''ImportError'') w
          | Some v \<Rightarrow> Return v w)),
      imp_reload = (\<lambda>m w. Return () w),
      call_hook = (\<lambda>c d w. Return () w),
      deepcopy = (\<lambda>d w. Return d w)\<rparr>"

text \<open>
  A module M (reference 3) with a state-migration hook (the function object at
  reference 101), a module-level attribute \<open>counter\<close> and a list object
  \<open>cache\<close> (reference 102); the library module \<open>copy\<close> (reference 7).
\<close>

definition hook_objs :: "nat \<Rightarrow> pyobj" where
  "hook_objs r =
     (if r = 3 then
        \<lparr>is_module = True,
         attrs = [(''__name__'', PStr ''M''), (''__file__'', PStr ''M.py''),
                  (''__builtins__'', PRef 100), (''__reload__'', PRef 101),
                  (''counter'', PStr ''7''), (''cache'', PRef 102)]\<rparr>
      else if r = 7 then module_obj ''copy''
      else ex_objs r)"

definition hook_world :: "unit world" where
  "hook_world =
     initial_world hook_objs (ex_sys_modules(''M'' \<mapsto> PRef 3, ''copy'' \<mapsto> PRef 7)) ()"

section \<open>Conditions on the host\<close>

text \<open>
  In a state, the module \<open>C\<close> is listed under the name \<open>c\<close>: \<open>c\<close> is its
  \<open>__name__\<close> and \<open>c\<close> is blacklisted. A host keeps \<open>C\<close> listed when none of
  its operations, started in a state where \<open>C\<close> is listed, ends (returning or
  raising) in a state where it is not: no module body or hook renames \<open>C\<close> or
  takes its name off the blacklist.
\<close>

definition listed :: "'h world \<Rightarrow> pyval \<Rightarrow> pyval \<Rightarrow> bool" where
  "listed w C c \<longleftrightarrow> getattr w C ''__name__'' = Inr c \<and> in_blacklist w c"

definition keeps_listed :: "'h host \<Rightarrow> pyval \<Rightarrow> pyval \<Rightarrow> bool" where
  "keeps_listed h C c \<longleftrightarrow>
     (\<forall>w. listed w C c \<longrightarrow>
        (\<forall>name g l fl lv. listed (state_of (baseimport h name g l fl lv w)) C c)
        \<and> (\<forall>m. listed (state_of (imp_reload h m w)) C c)
        \<and> (\<forall>cb d. listed (state_of (call_hook h cb d w)) C c)
        \<and> (\<forall>d. listed (state_of (deepcopy h d w)) C c))"

text \<open>
  A leaf: a module with a name that is not blacklisted, with no dependencies in the
  graph (no entry, or an empty one) and with no hook. A host keeps the modules of a
  list leaves when its reload primitive, whatever module it is applied to, does not
  rename or blacklist any of them and gives none of them a dependency or a hook.
\<close>

definition leaf :: "'h world \<Rightarrow> pyval \<Rightarrow> bool" where
  "leaf w d \<longleftrightarrow>
     (case getattr w d ''__name__'' of
        Inl e \<Rightarrow> False
      | Inr nm \<Rightarrow> \<not> in_blacklist w nm
                 \<and> (dependencies w nm = None \<or> dependencies w nm = Some []))
     \<and> getattr_default w d ''__reload__'' PNone = PNone"

definition keeps_leaves :: "'h host \<Rightarrow> pyval list \<Rightarrow> bool" where
  "keeps_leaves h ds \<longleftrightarrow>
     (\<forall>m w. \<forall>x \<in> set ds. leaf w x \<longrightarrow> leaf (state_of (imp_reload h m w)) x)"

text \<open>
  A imports B and then C (both leaves); C is blacklisted in the chain A, B, C; B is
  importing while C is blacklisted.
\<close>

definition star_world :: "unit world" where
  "star_world = ex_world\<lparr>dependencies := [PStr ''A'' \<mapsto> [PRef 1, PRef 2]]\<rparr>"

definition blacklist_world :: "unit world" where
  "blacklist_world = chain_world\<lparr>blacklist := Some {PStr ''C''}\<rparr>"

definition importing_world :: "unit world" where
  "importing_world = ex_world\<lparr>blacklist := Some {PStr ''C''}, parent := PStr ''B''\<rparr>"



text \<open>The state of module M after \<open>enable()\<close>.\<close>

definition enabled_hook_world :: "unit world" where
  "enabled_hook_world = enable None hook_world"

section \<open>Sequences of calls\<close>

text \<open>
  The calls a program makes on the reloader, one after the other: an import statement
  or \<open>__import__\<close> call that reaches the interceptor, a \<open>reload\<close> (with the depth
  allowed to its recursion), \<open>enable\<close>, \<open>disable\<close>. An exception of a call is the
  caller's to handle; the next call starts in the state the failed one left. A
  \<open>reload\<close> that does not finish within its depth ends the sequence without a state.
\<close>

datatype api_call =
    CallImport string "(string \<Rightarrow> pyval option) option" "(string \<Rightarrow> pyval option) option"
      "string list option" int
  | CallReload nat "(pyval \<Rightarrow> bool) option" pyval
  | CallEnable "pyval list option"
  | CallDisable

fun run_call :: "'h host \<Rightarrow> api_call \<Rightarrow> 'h world \<Rightarrow> 'h world option" where
  "run_call h (CallImport name globals locals fromlist level) w =
     Some (state_of (priv_import h name globals locals fromlist level w))"
| "run_call h (CallReload n scope m) w =
     (case reload n h scope m w of None \<Rightarrow> None | Some r \<Rightarrow> Some (glob (state_of r)))"
| "run_call h (CallEnable bl) w = Some (enable bl w)"
| "run_call h CallDisable w = Some (disable w)"

fun run_calls :: "'h host \<Rightarrow> api_call list \<Rightarrow> 'h world \<Rightarrow> 'h world option" where
  "run_calls h [] w = Some w"
| "run_calls h (c # cs) w =
     (case run_call h c w of None \<Rightarrow> None | Some w' \<Rightarrow> run_calls h cs w')"

text \<open>No list of the graph holds an element twice.\<close>

definition nodup :: "'h world \<Rightarrow> bool" where
  "nodup w \<longleftrightarrow> (\<forall>k l. dependencies w k = Some l \<longrightarrow> distinct l)"

text \<open>
  The host operations run module code, which reaches the graph through the
  reloader's own functions. The condition on the host is that each operation, started
  in a state without duplicates, ends (returning or raising) in such a state.
\<close>

definition keeps_nodup :: "'h host \<Rightarrow> bool" where
  "keeps_nodup h \<longleftrightarrow>
     (\<forall>w. nodup w \<longrightarrow>
        (\<forall>name g l fl lv. nodup (state_of (baseimport h name g l fl lv w)))
        \<and> (\<forall>m. nodup (state_of (imp_reload h m w)))
        \<and> (\<forall>c d. nodup (state_of (call_hook h c d w)))
        \<and> (\<forall>d. nodup (state_of (deepcopy h d w))))"

text \<open>The elements of a list in the order of their first occurrence.\<close>

definition first_occurrences :: "'a list \<Rightarrow> 'a list" where
  "first_occurrences xs = rev (remdups (rev xs))"

text \<open>
  Module A (its namespace is \<open>a_globals\<close>) imports B, then C, then B again, at run
  time (no import is in progress).
\<close>

definition a_globals :: "string \<Rightarrow> pyval option" where
  "a_globals = [''__name__'' \<mapsto> PStr ''A'']"

definition a_imports :: "api_call list" where
  "a_imports =
     [CallEnable None,
      CallImport ''B'' (Some a_globals) None None 0,
      CallImport ''C'' (Some a_globals) None None 0,
      CallImport ''B'' (Some a_globals) None None 0]"

text \<open>
  A source module \<open>os\<close> (reference 4) with the attribute \<open>sys\<close>, the built-in
  module \<open>sys\<close> (reference 5), which has no \<open>__file__\<close>; module \<open>app\<close>
  (reference 6) is being imported.
\<close>

definition os_objs :: "nat \<Rightarrow> pyobj" where
  "os_objs r =
     (if r = 4 then
        \<lparr>is_module = True,
         attrs = [(''__name__'', PStr ''os''), (''__file__'', PStr ''os.py''),
                  (''__builtins__'', PRef 100), (''sys'', PRef 5)]\<rparr>
      else if r = 5 then
        \<lparr>is_module = True, attrs = [(''__name__'', PStr ''sys'')]\<rparr>
      else if r = 6 then module_obj ''app''
      else ex_objs r)"

definition from_world :: "unit world" where
  "from_world =
     (initial_world os_objs [''os'' \<mapsto> PRef 4, ''sys'' \<mapsto> PRef 5, ''app'' \<mapsto> PRef 6] ())
       \<lparr>import_hooked := True, parent := PStr ''app''\<rparr>"

text \<open>A host whose reload primitive raises, and one whose hook raises.\<close>

definition failing_host :: "unit host" where
  "failing_host = quiet_host\<lparr>imp_reload := (\<lambda>m w. Raise (HostError ''SyntaxError'') w)\<rparr>"

definition failing_hook_host :: "unit host" where
  "failing_hook_host = quiet_host\<lparr>call_hook := (\<lambda>c d w. Raise (HostError ''ValueError'') w)\<rparr>"

text \<open>
  A program enables the reloader, runs \<open>from missing import bar\<close> (which raises
  ImportError) and disables the reloader.
\<close>

definition failed_import_then_disable :: "api_call list" where
  "failed_import_then_disable =
     [CallEnable (Some [PStr ''C'']),
      CallImport ''missing'' None None (Some [''bar'']) 0,
      CallDisable]"

section \<open>Properties\<close>

lemma set_append_absent: "set (append_absent l ms) = set l \<union> set ms"
  by (induction ms arbitrary: l) auto

lemma distinct_append_absent: "distinct l \<Longrightarrow> distinct (append_absent l ms)"
  by (induction ms arbitrary: l) auto

subsection \<open>The log of a reload\<close>

lemma reloaded_append [simp]: "reloaded (xs @ ys) = reloaded xs @ reloaded ys"
  by (simp add: reloaded_def)

lemma reloaded_simps [simp]:
  "reloaded [] = []"
  "reloaded (EvReload m # evs) = m # reloaded evs"
  "reloaded (EvHook c d # evs) = reloaded evs"
  by (simp_all add: reloaded_def)

lemma reload_module_calls:
  "visited (state_of (reload_module h m name rs)) = visited rs \<and>
   (\<exists>new. calls (state_of (reload_module h m name rs)) = calls rs @ new \<and>
      (reloaded new = [] \<or> reloaded new = [m]))"
  by (auto simp: reload_module_def Let_def split: if_splits outcome.splits)

lemma reload_module_Return:
  "reload_module h m name rs = Return u rs' \<Longrightarrow>
     visited rs' = visited rs \<and> reloaded (calls rs') = reloaded (calls rs) @ [m]"
  by (auto simp: reload_module_def Let_def split: if_splits outcome.splits)

lemma reload_module_Raise:
  "reload_module h m name rs = Raise e rs' \<Longrightarrow>
     visited rs' = visited rs \<and>
     (reloaded (calls rs') = reloaded (calls rs) \<or> reloaded (calls rs') = reloaded (calls rs) @ [m])"
  by (auto simp: reload_module_def Let_def split: if_splits outcome.splits)

subsection \<open>Evaluating the examples\<close>

lemma ex_names [simp]:
  "getattr ex_world (PRef 0) ''__name__'' = Inr (PStr ''A'')"
  "getattr ex_world (PRef (Suc 0)) ''__name__'' = Inr (PStr ''B'')"
  "getattr ex_world (PRef 2) ''__name__'' = Inr (PStr ''C'')"
  by (simp_all add: getattr_def ex_world_def initial_world_def ex_objs_def module_obj_def)

lemma getattr_objs: "objs w' = objs w \<Longrightarrow> getattr w' x a = getattr w x a"
  by (cases x) (simp_all add: getattr_def)

lemma getattr_update [simp]:
  "getattr (w\<lparr>dependencies := d\<rparr>) x a = getattr w x a"
  "getattr (w\<lparr>parent := p\<rparr>) x a = getattr w x a"
  "getattr (w\<lparr>parent_from_list := fl\<rparr>) x a = getattr w x a"
  "getattr (w\<lparr>blacklist := bl\<rparr>) x a = getattr w x a"
  "getattr (w\<lparr>import_hooked := b\<rparr>) x a = getattr w x a"
  by (cases x; simp add: getattr_def)+

lemma ex_no_hook [simp]: "getattr ex_world x ''__reload__'' = Inl AttributeError"
  by (cases x) (simp_all add: getattr_def ex_world_def initial_world_def ex_objs_def module_obj_def)

lemma in_blacklist_dependencies_update [simp]:
  "in_blacklist (w\<lparr>dependencies := d\<rparr>) nm = in_blacklist w nm"
  by (simp add: in_blacklist_def)

lemma ex_not_blacklisted [simp]: "\<not> in_blacklist ex_world nm"
  by (simp add: in_blacklist_def ex_world_def initial_world_def)

subsection \<open>Invariants of a reload\<close>

text \<open>
  Whatever the interceptor does to a state beyond what the base import did is an
  assignment to the graph and to the two context variables: the blacklist, the
  objects, \<open>sys.modules\<close> and the installed import are as the base import left
  them.
\<close>

lemma add_dependency_frame:
  "blacklist (state_of (priv_add_dependency p m subs v)) = blacklist v"
  "objs (state_of (priv_add_dependency p m subs v)) = objs v"
  "sys_modules (state_of (priv_add_dependency p m subs v)) = sys_modules v"
  "import_hooked (state_of (priv_add_dependency p m subs v)) = import_hooked v"
  by (simp_all add: priv_add_dependency_def Let_def split: sum.splits)

lemma record_import_frame:
  "blacklist (state_of (record_import par pfl g m subs v)) = blacklist v"
  "objs (state_of (record_import par pfl g m subs v)) = objs v"
  "sys_modules (state_of (record_import par pfl g m subs v)) = sys_modules v"
  "import_hooked (state_of (record_import par pfl g m subs v)) = import_hooked v"
  by (simp_all add: record_import_def Let_def add_dependency_frame split: sum.splits option.splits)

lemma import_frame:
  "let s = state_of (priv_import h name g l fl lv w);
       wb = state_of (baseimport h name g l fl lv (w\<lparr>parent := PStr name, parent_from_list := fl\<rparr>))
   in blacklist s = blacklist wb \<and> objs s = objs wb
      \<and> sys_modules s = sys_modules wb \<and> import_hooked s = import_hooked wb"
proof -
  define w1 where "w1 = w\<lparr>parent := PStr name, parent_from_list := fl\<rparr>"
  show ?thesis
  proof (cases "baseimport h name g l fl lv w1")
    case (Raise e w2)
    then show ?thesis
      by (simp add: priv_import_def Let_def w1_def[symmetric])
  next
    case (Return base w2)
    show ?thesis
    proof (cases "base = PNone")
      case True
      with Return show ?thesis
        by (simp add: priv_import_def Let_def w1_def[symmetric])
    next
      case False
      show ?thesis
      proof (cases "resolve_import w2 name fl base")
        case (Inl e)
        with Return False show ?thesis
          by (simp add: priv_import_def Let_def w1_def[symmetric])
      next
        case (Inr ms)
        obtain m subs where ms: "ms = (m, subs)" by (cases ms)
        define rr where "rr = record_import (parent w) (parent_from_list w) g m subs w2"
        note fr = record_import_frame[of "parent w" "parent_from_list w" g m subs w2,
            folded rr_def]
        show ?thesis
        proof (cases rr)
          case R: (Return u w3)
          with Return False Inr ms fr show ?thesis
            by (simp add: priv_import_def Let_def w1_def[symmetric] rr_def[symmetric])
        next
          case R: (Raise e w3)
          with Return False Inr ms fr show ?thesis
            by (simp add: priv_import_def Let_def w1_def[symmetric] rr_def[symmetric])
        qed
      qed
    qed
  qed
qed

lemma reload_deps_invariant:
  assumes rec: "\<And>dep rs r. Q rs \<Longrightarrow> rec dep rs = Some r \<Longrightarrow> Q (state_of r)"
  shows "Q rs \<Longrightarrow> reload_deps rec sc deps rs = Some r \<Longrightarrow> Q (state_of r)"
proof (induction deps arbitrary: rs)
  case Nil
  then show ?case by auto
next
  case (Cons dep deps)
  show ?case
  proof (cases "dep \<in> visited rs \<or> (case sc of None \<Rightarrow> False | Some s \<Rightarrow> \<not> s dep)")
    case True
    with Cons.prems have "reload_deps rec sc deps rs = Some r"
      by (auto split: if_splits)
    with Cons.prems(1) show ?thesis by (rule Cons.IH)
  next
    case False
    with Cons.prems obtain r1 where r1: "rec dep rs = Some r1"
      by (auto split: option.splits)
    from rec[OF Cons.prems(1) r1] have p1: "Q (state_of r1)" .
    show ?thesis
    proof (cases r1)
      case (Raise e rs')
      with Cons.prems False r1 p1 show ?thesis by auto
    next
      case (Return u rs')
      with Cons.prems False r1 have "reload_deps rec sc deps rs' = Some r" by auto
      with p1 Return show ?thesis by (auto intro: Cons.IH)
    qed
  qed
qed

text \<open>
  An invariant \<open>Q\<close> of the state of a traversal: kept when a module is added to the
  visited set, and kept by the reload step of every module that has passed the
  blacklist test in a state with \<open>Q\<close> (such modules are \<open>ok\<close>).
\<close>

lemma priv_reload_invariant:
  assumes ins: "\<And>m rs. Q rs \<Longrightarrow> Q (rs\<lparr>visited := insert m (visited rs)\<rparr>)"
    and entry: "\<And>m name rs. Q rs \<Longrightarrow> getattr (glob rs) m ''__name__'' = Inr name
        \<Longrightarrow> \<not> in_blacklist (glob rs) name \<Longrightarrow> ok m"
    and step: "\<And>m name rs. Q rs \<Longrightarrow> ok m \<Longrightarrow> Q (state_of (reload_module h m name rs))"
  shows "Q rs \<Longrightarrow> priv_reload n h sc m rs = Some r \<Longrightarrow> Q (state_of r)"
proof (induction n arbitrary: m rs r)
  case 0
  then show ?case by simp
next
  case (Suc n)
  show ?case
  proof (cases "getattr (glob rs) m ''__name__''")
    case (Inl e)
    with Suc.prems show ?thesis by auto
  next
    case (Inr name)
    show ?thesis
    proof (cases "in_blacklist (glob rs) name")
      case True
      with Suc.prems Inr show ?thesis by auto
    next
      case False
      from entry[OF Suc.prems(1) Inr False] have ok: "ok m" .
      define rs1 where "rs1 = rs\<lparr>visited := insert m (visited rs)\<rparr>"
      define loop where "loop = (case dependencies (glob rs1) name of
                        None \<Rightarrow> Some (Return () rs1)
                      | Some deps \<Rightarrow> reload_deps (priv_reload n h sc) sc (rev deps) rs1)"
      from Suc.prems Inr False have r: "(case loop of None \<Rightarrow> None
                | Some (Raise e rs2) \<Rightarrow> Some (Raise e rs2)
                | Some (Return u rs2) \<Rightarrow> Some (reload_module h m name rs2)) = Some r"
        unfolding loop_def rs1_def by (simp add: Let_def)
      then obtain r2 where r2: "loop = Some r2" by (auto split: option.splits)
      have p1: "Q rs1" unfolding rs1_def using Suc.prems(1) by (rule ins)
      have p2: "Q (state_of r2)"
      proof (cases "dependencies (glob rs1) name")
        case None
        with r2 p1 show ?thesis by (auto simp: loop_def)
      next
        case (Some deps)
        with r2 have "reload_deps (priv_reload n h sc) sc (rev deps) rs1 = Some r2"
          by (simp add: loop_def)
        with p1 show ?thesis by (rule reload_deps_invariant[rotated]) (rule Suc.IH)
      qed
      show ?thesis
      proof (cases r2)
        case (Raise e rs2)
        with r r2 p2 show ?thesis by auto
      next
        case (Return u rs2)
        with r r2 have "r = reload_module h m name rs2" by simp
        with p2 Return ok show ?thesis by (simp add: step)
      qed
    qed
  qed
qed

subsection \<open>Dependencies are reloaded first\<close>

lemma reload_chain:
  assumes names: "getattr w A ''__name__'' = Inr a" "getattr w B ''__name__'' = Inr b"
      "getattr w C ''__name__'' = Inr c"
    and graph: "dependencies w a = Some [B]" "dependencies w b = Some [C]"
      "dependencies w c = None \<or> dependencies w c = Some []"
    and bl: "\<not> in_blacklist w a" "\<not> in_blacklist w b" "\<not> in_blacklist w c"
    and fuel: "3 \<le> n"
  shows "\<exists>r. reload n h None A w = Some r
           \<and> prefix (reloaded (calls (state_of r))) [C, B, A]
           \<and> (returns r \<longrightarrow> reloaded (calls (state_of r)) = [C, B, A])"
proof -
  from graph names have ne': "A \<noteq> B" "B \<noteq> C" "A \<noteq> C" by auto
  from fuel obtain k where n: "n = Suc (Suc (Suc k))"
    by (metis Suc_le_D numeral_3_eq_3 Suc_le_mono)
  define rs3 where "rs3 = \<lparr>visited = {C, B, A}, calls = [], glob = w\<rparr>"
  have stepC: "priv_reload (Suc k) h None C \<lparr>visited = {B, A}, calls = [], glob = w\<rparr>
       = Some (reload_module h C c rs3)"
    using names graph bl by (auto simp: rs3_def)
  show ?thesis
  proof (cases "reload_module h C c rs3")
    case (Raise e rsC)
    have "reload n h None A w = Some (Raise e rsC)"
      unfolding n reload_def using names graph bl ne' stepC Raise
      by (simp add: Let_def)
    moreover have "prefix (reloaded (calls rsC)) [C, B, A]"
      using reload_module_Raise[OF Raise] by (auto simp: rs3_def)
    ultimately show ?thesis by simp
  next
    case (Return u rsC)
    note C = reload_module_Return[OF Return]
    have stepB: "priv_reload (Suc (Suc k)) h None B \<lparr>visited = {A}, calls = [], glob = w\<rparr>
       = Some (reload_module h B b rsC)"
      using names graph bl ne' stepC Return by (simp add: Let_def)
    show ?thesis
    proof (cases "reload_module h B b rsC")
      case (Raise e rsB)
      have "reload n h None A w = Some (Raise e rsB)"
        unfolding n reload_def using names graph bl ne' stepB Raise
        by (subst priv_reload.simps(2)) (simp add: Let_def del: priv_reload.simps)
      moreover have "prefix (reloaded (calls rsB)) [C, B, A]"
        using reload_module_Raise[OF Raise] C by (auto simp: rs3_def)
      ultimately show ?thesis by simp
    next
      case (Return u' rsB)
      note B = reload_module_Return[OF Return]
      have stepA: "reload n h None A w = Some (reload_module h A a rsB)"
        unfolding n reload_def using names graph bl ne' stepB Return
        by (subst priv_reload.simps(2)) (simp add: Let_def del: priv_reload.simps)
      show ?thesis
      proof (cases "reload_module h A a rsB")
        case (Raise e rsA)
        then show ?thesis using stepA reload_module_Raise[OF Raise] B C
          by (auto simp: rs3_def)
      next
        case (Return u'' rsA)
        then show ?thesis using stepA reload_module_Return[OF Return] B C
          by (auto simp: rs3_def)
      qed
    qed
  qed
qed

lemma leaf_update:
  "leaf w x \<Longrightarrow> leaf (w\<lparr>dependencies := (dependencies w)(k := None), parent := p\<rparr>) x"
  "leaf w x \<Longrightarrow> leaf (w\<lparr>parent := p\<rparr>) x"
  by (auto simp: leaf_def in_blacklist_def getattr_default_def split: sum.splits)

lemma reload_module_leaf:
  assumes h: "keeps_leaves h ds" and x: "x \<in> set ds" "leaf (glob rs) x"
    and m: "getattr_default (glob rs) m ''__reload__'' PNone = PNone"
  shows "leaf (glob (state_of (reload_module h m name rs))) x"
proof -
  define w1 where "w1 = (glob rs)\<lparr>dependencies := (dependencies (glob rs))(name := None), parent := name\<rparr>"
  have l1: "leaf w1 x" unfolding w1_def using x(2) by (rule leaf_update)
  have nocb: "getattr_default w1 m ''__reload__'' PNone = PNone"
    using m by (simp add: w1_def getattr_default_def)
  from h x(1) l1 have l3: "leaf (state_of (imp_reload h m w1)) x"
    by (auto simp: keeps_leaves_def)
  show ?thesis
  proof (cases "imp_reload h m w1")
    case (Return u w3)
    with l3 have "leaf (w3\<lparr>parent := PNone\<rparr>) x" by (simp add: leaf_update)
    with nocb Return show ?thesis
      unfolding reload_module_def w1_def[symmetric] Let_def by simp
  next
    case (Raise e w3)
    with l3 nocb show ?thesis
      unfolding reload_module_def w1_def[symmetric] Let_def by simp
  qed
qed

lemma priv_reload_leaf:
  assumes "leaf (glob rs) d"
  shows "\<exists>nm. priv_reload (Suc k) h sc d rs
           = Some (reload_module h d nm (rs\<lparr>visited := insert d (visited rs)\<rparr>))"
  using assms by (auto simp: leaf_def Let_def split: sum.splits)

lemma reload_leaves:
  assumes h: "keeps_leaves h ds"
  shows "set xs \<subseteq> set ds \<Longrightarrow> distinct xs \<Longrightarrow> set xs \<inter> visited rs = {}
    \<Longrightarrow> \<forall>x \<in> set ds. leaf (glob rs) x
    \<Longrightarrow> \<exists>r new. reload_deps (priv_reload (Suc k) h None) None xs rs = Some r
          \<and> calls (state_of r) = calls rs @ new \<and> prefix (reloaded new) xs
          \<and> (returns r \<longrightarrow> reloaded new = xs)"
proof (induction xs arbitrary: rs)
  case Nil
  then show ?case by simp
next
  case (Cons x xs)
  from Cons.prems have xv: "x \<notin> visited rs" and xd: "x \<in> set ds" and lx: "leaf (glob rs) x"
    by auto
  define rs1 where "rs1 = rs\<lparr>visited := insert x (visited rs)\<rparr>"
  from priv_reload_leaf[OF lx] obtain nm where
    pr: "priv_reload (Suc k) h None x rs = Some (reload_module h x nm rs1)"
    unfolding rs1_def by blast
  from reload_module_calls[of h x nm rs1] obtain new1 where
    n1: "visited (state_of (reload_module h x nm rs1)) = visited rs1"
        "calls (state_of (reload_module h x nm rs1)) = calls rs @ new1"
        "reloaded new1 = [] \<or> reloaded new1 = [x]"
    by (auto simp: rs1_def)
  show ?case
  proof (cases "reload_module h x nm rs1")
    case (Raise e rs')
    with pr xv have "reload_deps (priv_reload (Suc k) h None) None (x # xs) rs = Some (Raise e rs')"
      by (simp del: priv_reload.simps)
    moreover from n1 Raise have "calls rs' = calls rs @ new1" "prefix (reloaded new1) (x # xs)"
      by auto
    ultimately show ?thesis
      by (intro exI[of _ "Raise e rs'"] exI[of _ new1]) (simp del: priv_reload.simps)
  next
    case (Return u rs')
    with pr xv have step: "reload_deps (priv_reload (Suc k) h None) None (x # xs) rs
        = reload_deps (priv_reload (Suc k) h None) None xs rs'"
      by (simp del: priv_reload.simps)
    from reload_module_Return[OF Return] n1 Return have r1: "reloaded new1 = [x]"
      "visited rs' = insert x (visited rs)" "calls rs' = calls rs @ new1"
      by (auto simp: rs1_def)
    have hookless: "getattr_default (glob rs1) x ''__reload__'' PNone = PNone"
      using lx by (simp add: leaf_def rs1_def)
    have leaves: "\<forall>y \<in> set ds. leaf (glob rs') y"
    proof
      fix y assume y: "y \<in> set ds"
      with Cons.prems(4) have "leaf (glob rs1) y" by (simp add: rs1_def)
      from reload_module_leaf[OF h y this hookless, of nm] Return show "leaf (glob rs') y"
        by simp
    qed
    from Cons.prems r1 have "set xs \<subseteq> set ds" "distinct xs" "set xs \<inter> visited rs' = {}"
      by auto
    from Cons.IH[OF this leaves] obtain r new where
      r: "reload_deps (priv_reload (Suc k) h None) None xs rs' = Some r"
         "calls (state_of r) = calls rs' @ new" "prefix (reloaded new) xs"
         "returns r \<longrightarrow> reloaded new = xs"
      by blast
    show ?thesis
      using step r r1
      by (intro exI[of _ r] exI[of _ "new1 @ new"]) (simp del: priv_reload.simps)
  qed
qed

lemma reload_star:
  assumes h: "keeps_leaves h ds" and leaves: "\<forall>x \<in> set ds. leaf w x"
    and ds: "distinct ds" "A \<notin> set ds"
    and a: "getattr w A ''__name__'' = Inr a" "\<not> in_blacklist w a"
      "dependencies w a = Some ds"
    and fuel: "2 \<le> n"
  shows "\<exists>r. reload n h None A w = Some r
           \<and> prefix (reloaded (calls (state_of r))) (rev ds @ [A])
           \<and> (returns r \<longrightarrow> reloaded (calls (state_of r)) = rev ds @ [A])"
proof -
  from fuel obtain k where n: "n = Suc (Suc k)"
    by (metis Suc_le_D numeral_2_eq_2 Suc_le_mono)
  define rs1 where "rs1 = \<lparr>visited = {A}, calls = [], glob = w\<rparr>"
  have "\<exists>r new. reload_deps (priv_reload (Suc k) h None) None (rev ds) rs1 = Some r
          \<and> calls (state_of r) = calls rs1 @ new \<and> prefix (reloaded new) (rev ds)
          \<and> (returns r \<longrightarrow> reloaded new = rev ds)"
    using ds leaves by (intro reload_leaves[OF h]) (auto simp: rs1_def)
  then obtain r2 new where
    r2: "reload_deps (priv_reload (Suc k) h None) None (rev ds) rs1 = Some r2"
      "calls (state_of r2) = new" "prefix (reloaded new) (rev ds)"
      "returns r2 \<longrightarrow> reloaded new = rev ds"
    by (auto simp: rs1_def)
  show ?thesis
  proof (cases r2)
    case (Raise e rs2)
    have "reload n h None A w = Some (Raise e rs2)"
      unfolding n reload_def using a r2(1) Raise
      by (subst priv_reload.simps(2)) (simp add: Let_def rs1_def del: priv_reload.simps)
    moreover from r2 Raise have "prefix (reloaded (calls rs2)) (rev ds @ [A])"
      by (auto intro: prefix_prefix)
    ultimately show ?thesis by simp
  next
    case (Return u rs2)
    with r2 have c2: "reloaded (calls rs2) = rev ds" by auto
    have stepA: "reload n h None A w = Some (reload_module h A a rs2)"
      unfolding n reload_def using a r2(1) Return
      by (subst priv_reload.simps(2)) (simp add: Let_def rs1_def del: priv_reload.simps)
    show ?thesis
    proof (cases "reload_module h A a rs2")
      case R: (Raise e rsA)
      with stepA reload_module_Raise[OF R] c2 show ?thesis by auto
    next
      case R: (Return u' rsA)
      with stepA reload_module_Return[OF R] c2 show ?thesis by auto
    qed
  qed
qed

lemma quiet_host_keeps_leaves: "keeps_leaves quiet_host ds"
  by (simp add: keeps_leaves_def quiet_host_def)

text \<open>
  C1. For a chain A imports B, B imports C (all three in the graph, C with no
  dependencies of its own, none blacklisted, no scope predicate) and a recursion depth
  of at least three, \<open>reload(A)\<close> finishes, and hands C, then B, then A to the reload
  primitive: after a normal return the log of reloaded modules is exactly C, B, A, and
  when a host operation raises on the way the log is the part of that sequence reached
  so far.

  A dependency list is walked from its last element to its first. For a module R
  whose list \<open>ds\<close> holds leaves (different modules, none of them R), with a host
  whose reload primitive keeps them leaves (a dependency is examined only after the
  ones behind it in the list have been reloaded), and a recursion depth of at least two,
  \<open>reload(R)\<close> finishes; after a normal return the reloaded modules are the list
  reversed and then R, and when a host operation raises the log is the part of that
  sequence reached so far.
\<close>

theorem reload_chain_order:
  "(getattr w A ''__name__'' = Inr a \<and> getattr w B ''__name__'' = Inr b
      \<and> getattr w C ''__name__'' = Inr c
      \<and> dependencies w a = Some [B] \<and> dependencies w b = Some [C]
      \<and> (dependencies w c = None \<or> dependencies w c = Some [])
      \<and> \<not> in_blacklist w a \<and> \<not> in_blacklist w b \<and> \<not> in_blacklist w c
      \<and> 3 \<le> n
    \<longrightarrow> (\<exists>r. reload n h None A w = Some r
           \<and> prefix (reloaded (calls (state_of r))) [C, B, A]
           \<and> (returns r \<longrightarrow> reloaded (calls (state_of r)) = [C, B, A])))
   \<and> (keeps_leaves hs ds \<and> (\<forall>x \<in> set ds. leaf ws x)
      \<and> distinct ds \<and> R \<notin> set ds
      \<and> getattr ws R ''__name__'' = Inr rn \<and> \<not> in_blacklist ws rn
      \<and> dependencies ws rn = Some ds
      \<and> 2 \<le> k
    \<longrightarrow> (\<exists>r. reload k hs None R ws = Some r
           \<and> prefix (reloaded (calls (state_of r))) (rev ds @ [R])
           \<and> (returns r \<longrightarrow> reloaded (calls (state_of r)) = rev ds @ [R])))"
proof (intro conjI impI)
  assume "getattr w A ''__name__'' = Inr a \<and> getattr w B ''__name__'' = Inr b
      \<and> getattr w C ''__name__'' = Inr c
      \<and> dependencies w a = Some [B] \<and> dependencies w b = Some [C]
      \<and> (dependencies w c = None \<or> dependencies w c = Some [])
      \<and> \<not> in_blacklist w a \<and> \<not> in_blacklist w b \<and> \<not> in_blacklist w c
      \<and> 3 \<le> n"
  then show "\<exists>r. reload n h None A w = Some r
           \<and> prefix (reloaded (calls (state_of r))) [C, B, A]
           \<and> (returns r \<longrightarrow> reloaded (calls (state_of r)) = [C, B, A])"
    by (intro reload_chain[of w A a B b C c n h]) blast+
next
  assume "keeps_leaves hs ds \<and> (\<forall>x \<in> set ds. leaf ws x)
      \<and> distinct ds \<and> R \<notin> set ds
      \<and> getattr ws R ''__name__'' = Inr rn \<and> \<not> in_blacklist ws rn
      \<and> dependencies ws rn = Some ds
      \<and> 2 \<le> k"
  then show "\<exists>r. reload k hs None R ws = Some r
           \<and> prefix (reloaded (calls (state_of r))) (rev ds @ [R])
           \<and> (returns r \<longrightarrow> reloaded (calls (state_of r)) = rev ds @ [R])"
    by (intro reload_star[of hs ds ws R rn k]) blast+
qed

theorem reload_chain_order_witness:
  "getattr chain_world (PRef 0) ''__name__'' = Inr (PStr ''A'')
   \<and> dependencies chain_world (PStr ''A'') = Some [PRef 1]
   \<and> dependencies chain_world (PStr ''B'') = Some [PRef 2]
   \<and> dependencies chain_world (PStr ''C'') = None
   \<and> (\<exists>r. reload 3 quiet_host None (PRef 0) chain_world = Some r
           \<and> returns r
           \<and> reloaded (calls (state_of r)) = [PRef 2, PRef 1, PRef 0])
   \<and> keeps_leaves quiet_host [PRef 1, PRef 2]
   \<and> leaf star_world (PRef 1) \<and> leaf star_world (PRef 2)
   \<and> dependencies star_world (PStr ''A'') = Some [PRef 1, PRef 2]
   \<and> (\<exists>r. reload 2 quiet_host None (PRef 0) star_world = Some r
           \<and> returns r
           \<and> reloaded (calls (state_of r)) = [PRef 2, PRef 1, PRef 0])"
proof -
  have ret: "returns (the (reload 3 quiet_host None (PRef 0) chain_world))"
    by (simp add: reload_def numeral_3_eq_3 chain_world_def Let_def reload_module_def
        getattr_default_def quiet_host_def)
  have "\<exists>r. reload 3 quiet_host None (PRef 0) chain_world = Some r
           \<and> prefix (reloaded (calls (state_of r))) [PRef 2, PRef 1, PRef 0]
           \<and> (returns r \<longrightarrow> reloaded (calls (state_of r)) = [PRef 2, PRef 1, PRef 0])"
    by (rule reload_chain_order[where a = "PStr ''A''" and b = "PStr ''B''" and c = "PStr ''C''",
          THEN conjunct1, THEN mp])
       (simp add: chain_world_def)
  with ret have chain: "\<exists>r. reload 3 quiet_host None (PRef 0) chain_world = Some r
           \<and> returns r \<and> reloaded (calls (state_of r)) = [PRef 2, PRef 1, PRef 0]"
    by auto
  have leaves: "leaf star_world (PRef 1)" "leaf star_world (PRef 2)"
    by (simp_all add: leaf_def star_world_def getattr_default_def)
  have deps: "dependencies star_world (PStr ''A'') = Some [PRef 1, PRef 2]"
    by (simp add: star_world_def)
  have two: "getattr ex_world (PRef (Suc (Suc 0))) ''__name__'' = Inr (PStr ''C'')"
    by (simp add: getattr_def ex_world_def initial_world_def ex_objs_def module_obj_def)
  have ret2: "returns (the (reload 2 quiet_host None (PRef 0) star_world))"
    by (simp add: reload_def numeral_2_eq_2 star_world_def Let_def reload_module_def
        getattr_default_def quiet_host_def two)
  have "\<exists>r. reload 2 quiet_host None (PRef 0) star_world = Some r
           \<and> prefix (reloaded (calls (state_of r))) (rev [PRef 1, PRef 2] @ [PRef 0])
           \<and> (returns r \<longrightarrow> reloaded (calls (state_of r)) = rev [PRef 1, PRef 2] @ [PRef 0])"
    using leaves deps quiet_host_keeps_leaves[of "[PRef 1, PRef 2]"]
    by (intro reload_chain_order[where rn = "PStr ''A''" and hs = quiet_host,
          THEN conjunct2, THEN mp])
       (simp add: star_world_def)
  with ret2 have star: "\<exists>r. reload 2 quiet_host None (PRef 0) star_world = Some r
           \<and> returns r \<and> reloaded (calls (state_of r)) = [PRef 2, PRef 1, PRef 0]"
    by auto
  from chain star leaves deps quiet_host_keeps_leaves[of "[PRef 1, PRef 2]"] show ?thesis
    by (simp add: chain_world_def)
qed

subsection \<open>Every module is reloaded at most once\<close>

lemma extends_refl: "extends rs rs"
  by (simp add: extends_def)

lemma extends_trans:
  assumes "extends a b" "extends b c"
  shows "extends a c"
proof -
  from assms obtain n1 n2 where
    1: "visited a \<subseteq> visited b" "calls b = calls a @ n1" "distinct (reloaded n1)"
       "set (reloaded n1) \<subseteq> visited b - visited a"
    and 2: "visited b \<subseteq> visited c" "calls c = calls b @ n2" "distinct (reloaded n2)"
       "set (reloaded n2) \<subseteq> visited c - visited b"
    unfolding extends_def by blast
  have "calls c = calls a @ (n1 @ n2)" using 1 2 by simp
  moreover have "distinct (reloaded (n1 @ n2))" using 1 2 by auto
  moreover have "set (reloaded (n1 @ n2)) \<subseteq> visited c - visited a" using 1 2 by auto
  moreover have "visited a \<subseteq> visited c" using 1 2 by auto
  ultimately show ?thesis unfolding extends_def by blast
qed

lemma reload_deps_extends:
  assumes rec: "\<And>dep rs r. dep \<notin> visited rs \<Longrightarrow> rec dep rs = Some r \<Longrightarrow> extends rs (state_of r)"
  shows "reload_deps rec sc deps rs = Some r \<Longrightarrow> extends rs (state_of r)"
proof (induction deps arbitrary: rs)
  case Nil
  then show ?case by (auto simp: extends_refl)
next
  case (Cons dep deps)
  show ?case
  proof (cases "dep \<in> visited rs \<or> (case sc of None \<Rightarrow> False | Some s \<Rightarrow> \<not> s dep)")
    case True
    with Cons.prems have "reload_deps rec sc deps rs = Some r"
      by (auto split: if_splits)
    then show ?thesis by (rule Cons.IH)
  next
    case False
    with Cons.prems obtain r1 where r1: "rec dep rs = Some r1"
      by (auto split: option.splits)
    from False r1 have e1: "extends rs (state_of r1)" by (auto intro: rec)
    show ?thesis
    proof (cases r1)
      case (Raise e rs')
      with Cons.prems False r1 e1 show ?thesis by auto
    next
      case (Return u rs')
      with Cons.prems False r1 have "reload_deps rec sc deps rs' = Some r" by auto
      from Cons.IH[OF this] e1 Return show ?thesis by (auto intro: extends_trans)
    qed
  qed
qed

lemma priv_reload_extends:
  "m \<notin> visited rs \<Longrightarrow> priv_reload n h sc m rs = Some r \<Longrightarrow> extends rs (state_of r)"
proof (induction n arbitrary: m rs r)
  case 0
  then show ?case by simp
next
  case (Suc n)
  show ?case
  proof (cases "getattr (glob rs) m ''__name__''")
    case (Inl e)
    with Suc.prems show ?thesis by (auto simp: extends_refl)
  next
    case (Inr name)
    show ?thesis
    proof (cases "in_blacklist (glob rs) name")
      case True
      with Suc.prems Inr show ?thesis by (auto simp: extends_refl)
    next
      case False
      define rs1 where "rs1 = rs\<lparr>visited := insert m (visited rs)\<rparr>"
      define loop where "loop = (case dependencies (glob rs1) name of
                        None \<Rightarrow> Some (Return () rs1)
                      | Some deps \<Rightarrow> reload_deps (priv_reload n h sc) sc (rev deps) rs1)"
      from Suc.prems Inr False have r: "(case loop of None \<Rightarrow> None
                | Some (Raise e rs2) \<Rightarrow> Some (Raise e rs2)
                | Some (Return u rs2) \<Rightarrow> Some (reload_module h m name rs2)) = Some r"
        unfolding loop_def rs1_def by (simp add: Let_def)
      then obtain r2 where r2: "loop = Some r2" by (auto split: option.splits)
      have e12: "extends rs1 (state_of r2)"
      proof (cases "dependencies (glob rs1) name")
        case None
        with r2 show ?thesis by (auto simp: loop_def extends_refl)
      next
        case (Some deps)
        with r2 have "reload_deps (priv_reload n h sc) sc (rev deps) rs1 = Some r2"
          by (simp add: loop_def)
        then show ?thesis by (rule reload_deps_extends[rotated]) (rule Suc.IH)
      qed
      then obtain new where new: "visited rs1 \<subseteq> visited (state_of r2)"
         "calls (state_of r2) = calls rs1 @ new" "distinct (reloaded new)"
         "set (reloaded new) \<subseteq> visited (state_of r2) - visited rs1"
        unfolding extends_def by blast
      have m1: "m \<in> visited rs1" "visited rs1 = insert m (visited rs)" "calls rs1 = calls rs"
        by (simp_all add: rs1_def)
      show ?thesis
      proof (cases r2)
        case (Raise e rs2)
        with r r2 have "r = Raise e rs2" by simp
        with new m1 Raise show ?thesis unfolding extends_def by auto
      next
        case (Return u rs2)
        with r r2 have rr: "r = reload_module h m name rs2" by simp
        from reload_module_calls[of h m name rs2] obtain new2 where
          n2: "visited (state_of r) = visited rs2" "calls (state_of r) = calls rs2 @ new2"
              "reloaded new2 = [] \<or> reloaded new2 = [m]"
          unfolding rr by blast
        have "calls (state_of r) = calls rs @ (new @ new2)" using n2 new Return m1 by simp
        moreover have "distinct (reloaded (new @ new2))" using n2 new Return m1 by auto
        moreover have "set (reloaded (new @ new2)) \<subseteq> visited (state_of r) - visited rs"
          using n2 new Return m1 Suc.prems(1) by auto
        moreover have "visited rs \<subseteq> visited (state_of r)" using n2 new Return m1 by auto
        ultimately show ?thesis unfolding extends_def by blast
      qed
    qed
  qed
qed

lemma reload_once:
  "reload n h sc m w = Some r \<Longrightarrow> distinct (reloaded (calls (state_of r)))"
  using priv_reload_extends[of m "\<lparr>visited = {}, calls = [], glob = w\<rparr>" n h sc r]
  by (auto simp: reload_def extends_def)

text \<open>
  C2. For a cycle A imports B, B imports A (two different modules, neither
  blacklisted, no scope predicate) and a recursion depth of at least two,
  \<open>reload(A)\<close> finishes: the recursion stops at A, which is already in the visited
  set when B's dependencies are walked. No module is handed to the reload primitive
  twice; after a normal return the primitive has been invoked exactly once on B and
  then exactly once on A, and when a host operation raises the log is the part of
  that sequence reached so far. (\<open>reload_once\<close> above is the same guard for every
  graph.)
\<close>

theorem reload_cycle:
  assumes names: "getattr w A ''__name__'' = Inr a" "getattr w B ''__name__'' = Inr b"
    and graph: "dependencies w a = Some [B]" "dependencies w b = Some [A]"
    and ne: "A \<noteq> B"
    and bl: "\<not> in_blacklist w a" "\<not> in_blacklist w b"
    and fuel: "2 \<le> n"
  shows "\<exists>r. reload n h None A w = Some r
           \<and> distinct (reloaded (calls (state_of r)))
           \<and> prefix (reloaded (calls (state_of r))) [B, A]
           \<and> (returns r \<longrightarrow> reloaded (calls (state_of r)) = [B, A])"
proof -
  from fuel obtain k where n: "n = Suc (Suc k)"
    by (metis Suc_le_D numeral_2_eq_2 Suc_le_mono)
  define rs2 where "rs2 = \<lparr>visited = {B, A}, calls = [], glob = w\<rparr>"
  have stepB: "priv_reload (Suc k) h None B \<lparr>visited = {A}, calls = [], glob = w\<rparr>
       = Some (reload_module h B b rs2)"
    using names graph bl ne by (auto simp: rs2_def)
  have main: "\<exists>r. reload n h None A w = Some r
           \<and> prefix (reloaded (calls (state_of r))) [B, A]
           \<and> (returns r \<longrightarrow> reloaded (calls (state_of r)) = [B, A])"
  proof (cases "reload_module h B b rs2")
    case (Raise e rsB)
    have "reload n h None A w = Some (Raise e rsB)"
      unfolding n reload_def using names graph bl ne stepB Raise
      by (subst priv_reload.simps(2)) (simp add: Let_def del: priv_reload.simps)
    moreover have "prefix (reloaded (calls rsB)) [B, A]"
      using reload_module_Raise[OF Raise] by (auto simp: rs2_def)
    ultimately show ?thesis by simp
  next
    case (Return u rsB)
    note B = reload_module_Return[OF Return]
    have stepA: "reload n h None A w = Some (reload_module h A a rsB)"
      unfolding n reload_def using names graph bl ne stepB Return
      by (subst priv_reload.simps(2)) (simp add: Let_def del: priv_reload.simps)
    show ?thesis
    proof (cases "reload_module h A a rsB")
      case (Raise e rsA)
      then show ?thesis using stepA reload_module_Raise[OF Raise] B
        by (auto simp: rs2_def)
    next
      case (Return u' rsA)
      then show ?thesis using stepA reload_module_Return[OF Return] B
        by (auto simp: rs2_def)
    qed
  qed
  then obtain r where r: "reload n h None A w = Some r"
    "prefix (reloaded (calls (state_of r))) [B, A]"
    "returns r \<longrightarrow> reloaded (calls (state_of r)) = [B, A]" by blast
  from r(1) have "distinct (reloaded (calls (state_of r)))" by (rule reload_once)
  with r show ?thesis by blast
qed

theorem reload_cycle_witness:
  "getattr cycle_world (PRef 0) ''__name__'' = Inr (PStr ''A'')
   \<and> getattr cycle_world (PRef 1) ''__name__'' = Inr (PStr ''B'')
   \<and> dependencies cycle_world (PStr ''A'') = Some [PRef 1]
   \<and> dependencies cycle_world (PStr ''B'') = Some [PRef 0]
   \<and> (\<exists>r. reload 2 quiet_host None (PRef 0) cycle_world = Some r
           \<and> returns r
           \<and> reloaded (calls (state_of r)) = [PRef 1, PRef 0])"
proof -
  have ret: "returns (the (reload 2 quiet_host None (PRef 0) cycle_world))"
    by (simp add: reload_def numeral_2_eq_2 cycle_world_def Let_def reload_module_def
        getattr_default_def quiet_host_def)
  have "\<exists>r. reload 2 quiet_host None (PRef 0) cycle_world = Some r
           \<and> distinct (reloaded (calls (state_of r)))
           \<and> prefix (reloaded (calls (state_of r))) [PRef 1, PRef 0]
           \<and> (returns r \<longrightarrow> reloaded (calls (state_of r)) = [PRef 1, PRef 0])"
    by (rule reload_cycle[where a = "PStr ''A''" and b = "PStr ''B''"])
       (simp_all add: cycle_world_def)
  with ret show ?thesis by (auto simp: cycle_world_def)
qed

subsection \<open>The scope predicate and the root\<close>

lemma reload_deps_mono:
  assumes rec: "\<And>dep rs r. rec dep rs = Some r \<Longrightarrow> visited rs \<subseteq> visited (state_of r)"
  shows "reload_deps rec sc deps rs = Some r \<Longrightarrow> visited rs \<subseteq> visited (state_of r)"
proof (induction deps arbitrary: rs)
  case Nil
  then show ?case by auto
next
  case (Cons dep deps)
  show ?case
  proof (cases "dep \<in> visited rs \<or> (case sc of None \<Rightarrow> False | Some s \<Rightarrow> \<not> s dep)")
    case True
    with Cons.prems have "reload_deps rec sc deps rs = Some r"
      by (auto split: if_splits)
    then show ?thesis by (rule Cons.IH)
  next
    case False
    with Cons.prems obtain r1 where r1: "rec dep rs = Some r1"
      by (auto split: option.splits)
    from rec[OF r1] have m1: "visited rs \<subseteq> visited (state_of r1)" .
    show ?thesis
    proof (cases r1)
      case (Raise e rs')
      with Cons.prems False r1 m1 show ?thesis by auto
    next
      case (Return u rs')
      with Cons.prems False r1 have "reload_deps rec sc deps rs' = Some r" by auto
      from Cons.IH[OF this] m1 Return show ?thesis by auto
    qed
  qed
qed

lemma priv_reload_mono:
  "priv_reload n h sc m rs = Some r \<Longrightarrow> visited rs \<subseteq> visited (state_of r)"
proof (induction n arbitrary: m rs r)
  case 0
  then show ?case by simp
next
  case (Suc n)
  show ?case
  proof (cases "getattr (glob rs) m ''__name__''")
    case (Inl e)
    with Suc.prems show ?thesis by auto
  next
    case (Inr name)
    show ?thesis
    proof (cases "in_blacklist (glob rs) name")
      case True
      with Suc.prems Inr show ?thesis by auto
    next
      case False
      define rs1 where "rs1 = rs\<lparr>visited := insert m (visited rs)\<rparr>"
      define loop where "loop = (case dependencies (glob rs1) name of
                        None \<Rightarrow> Some (Return () rs1)
                      | Some deps \<Rightarrow> reload_deps (priv_reload n h sc) sc (rev deps) rs1)"
      from Suc.prems Inr False have r: "(case loop of None \<Rightarrow> None
                | Some (Raise e rs2) \<Rightarrow> Some (Raise e rs2)
                | Some (Return u rs2) \<Rightarrow> Some (reload_module h m name rs2)) = Some r"
        unfolding loop_def rs1_def by (simp add: Let_def)
      then obtain r2 where r2: "loop = Some r2" by (auto split: option.splits)
      have "visited rs1 \<subseteq> visited (state_of r2)"
      proof (cases "dependencies (glob rs1) name")
        case None
        with r2 show ?thesis by (auto simp: loop_def)
      next
        case (Some deps)
        with r2 have "reload_deps (priv_reload n h sc) sc (rev deps) rs1 = Some r2"
          by (simp add: loop_def)
        then show ?thesis by (rule reload_deps_mono[rotated]) (rule Suc.IH)
      qed
      then have m2: "visited rs \<subseteq> visited (state_of r2)" by (auto simp: rs1_def)
      show ?thesis
      proof (cases r2)
        case (Raise e rs2)
        with r r2 m2 show ?thesis by auto
      next
        case (Return u rs2)
        with r r2 have "r = reload_module h m name rs2" by simp
        with reload_module_calls[of h m name rs2] m2 Return show ?thesis by auto
      qed
    qed
  qed
qed

lemma reload_deps_scope:
  assumes agree: "\<And>x. x \<noteq> M \<Longrightarrow> S x = S' x"
    and rec: "\<And>dep rs. M \<in> visited rs \<Longrightarrow> rec dep rs = rec' dep rs"
    and mono: "\<And>dep rs r. rec dep rs = Some r \<Longrightarrow> visited rs \<subseteq> visited (state_of r)"
  shows "M \<in> visited rs \<Longrightarrow>
    reload_deps rec (Some S) deps rs = reload_deps rec' (Some S') deps rs"
proof (induction deps arbitrary: rs)
  case Nil
  then show ?case by simp
next
  case (Cons dep deps)
  show ?case
  proof (cases "dep \<in> visited rs")
    case True
    with Cons show ?thesis by simp
  next
    case False
    with Cons.prems have "dep \<noteq> M" by auto
    then have S: "S dep = S' dep" by (rule agree)
    show ?thesis
    proof (cases "S dep")
      case False
      with S \<open>dep \<notin> visited rs\<close> Cons show ?thesis by simp
    next
      case True
      note recs = rec[OF Cons.prems, of dep]
      show ?thesis
      proof (cases "rec dep rs")
        case None
        with True S \<open>dep \<notin> visited rs\<close> recs show ?thesis by simp
      next
        case (Some r1)
        from mono[OF Some] Cons.prems have M1: "M \<in> visited (state_of r1)" by auto
        show ?thesis
        proof (cases r1)
          case (Raise e rs')
          with Some True S \<open>dep \<notin> visited rs\<close> recs show ?thesis by simp
        next
          case (Return u rs')
          with M1 have "reload_deps rec (Some S) deps rs' = reload_deps rec' (Some S') deps rs'"
            by (auto intro: Cons.IH)
          with Return Some True S \<open>dep \<notin> visited rs\<close> recs show ?thesis by simp
        qed
      qed
    qed
  qed
qed

lemma priv_reload_scope:
  assumes agree: "\<And>x. x \<noteq> M \<Longrightarrow> S x = S' x"
  shows "M \<in> visited rs \<or> m = M \<Longrightarrow>
    priv_reload n h (Some S) m rs = priv_reload n h (Some S') m rs"
proof (induction n arbitrary: m rs)
  case 0
  then show ?case by simp
next
  case (Suc n)
  have loop: "reload_deps (priv_reload n h (Some S)) (Some S) deps (rs\<lparr>visited := insert m (visited rs)\<rparr>)
      = reload_deps (priv_reload n h (Some S')) (Some S') deps (rs\<lparr>visited := insert m (visited rs)\<rparr>)"
    for deps
  proof (rule reload_deps_scope[where M = M])
    show "\<And>x. x \<noteq> M \<Longrightarrow> S x = S' x" by (rule agree)
    show "\<And>dep rs. M \<in> visited rs \<Longrightarrow>
        priv_reload n h (Some S) dep rs = priv_reload n h (Some S') dep rs"
      by (simp add: Suc.IH)
    show "\<And>dep rs r. priv_reload n h (Some S) dep rs = Some r \<Longrightarrow>
        visited rs \<subseteq> visited (state_of r)"
      by (rule priv_reload_mono)
    show "M \<in> visited (rs\<lparr>visited := insert m (visited rs)\<rparr>)"
      using Suc.prems by auto
  qed
  show ?case
    by (simp add: Let_def loop split: sum.splits option.splits)
qed

lemma priv_reload_Return_last:
  assumes "priv_reload n h sc m rs = Some (Return u rs')"
    and "getattr (glob rs) m ''__name__'' = Inr name"
    and "\<not> in_blacklist (glob rs) name"
  shows "\<exists>rs2. reload_module h m name rs2 = Return u rs'"
proof (cases n)
  case 0
  with assms show ?thesis by simp
next
  case (Suc k)
  with assms show ?thesis
    by (auto simp: Let_def split: option.splits outcome.splits)
qed

text \<open>
  C10. The scope predicate is never applied to the root of a reload. The result of
  \<open>reload(M, scope=S)\<close> does not depend on what \<open>S\<close> answers for \<open>M\<close>: two
  predicates that agree on every other module give the same run. And whenever
  \<open>reload(M, scope=S)\<close> returns normally for a root that is not blacklisted, the
  reload primitive has been invoked on \<open>M\<close>, as the last reload of the run, also
  when \<open>S(M)\<close> is false.
\<close>

theorem scope_skips_root:
  "((\<forall>x. x \<noteq> M \<longrightarrow> S x = S' x)
      \<longrightarrow> reload n h (Some S) M w = reload n h (Some S') M w)
   \<and> (reload n h (Some S) M w = Some (Return u rs')
        \<and> getattr w M ''__name__'' = Inr name \<and> \<not> in_blacklist w name
      \<longrightarrow> reloaded (calls rs') \<noteq> [] \<and> last (reloaded (calls rs')) = M)"
proof (intro conjI impI)
  assume "\<forall>x. x \<noteq> M \<longrightarrow> S x = S' x"
  then show "reload n h (Some S) M w = reload n h (Some S') M w"
    unfolding reload_def by (intro priv_reload_scope) auto
next
  assume a: "reload n h (Some S) M w = Some (Return u rs')
        \<and> getattr w M ''__name__'' = Inr name \<and> \<not> in_blacklist w name"
  then obtain rs2 where "reload_module h M name rs2 = Return u rs'"
    unfolding reload_def
    using priv_reload_Return_last[of n h "Some S" M "\<lparr>visited = {}, calls = [], glob = w\<rparr>" u rs' name]
    by auto
  from reload_module_Return[OF this]
  show "reloaded (calls rs') \<noteq> []" "last (reloaded (calls rs')) = M" by auto
qed

theorem scope_skips_root_witness:
  "reload 3 quiet_host (Some (\<lambda>x. False)) (PRef 0) chain_world
     = reload 3 quiet_host (Some (\<lambda>x. x = PRef 0)) (PRef 0) chain_world
   \<and> (\<exists>rs'. reload 3 quiet_host (Some (\<lambda>x. False)) (PRef 0) chain_world = Some (Return () rs')
         \<and> reloaded (calls rs') = [PRef 0])
   \<and> getattr chain_world (PRef 0) ''__name__'' = Inr (PStr ''A'')
   \<and> \<not> in_blacklist chain_world (PStr ''A'')"
proof -
  have run: "\<exists>rs'. reload 3 quiet_host (Some (\<lambda>x. False)) (PRef 0) chain_world = Some (Return () rs')
         \<and> reloaded (calls rs') = [PRef 0]"
    by (simp add: reload_def numeral_3_eq_3 chain_world_def Let_def reload_module_def
        getattr_default_def quiet_host_def)
  have "reload 3 quiet_host (Some (\<lambda>x. False)) (PRef 0) chain_world
     = reload 3 quiet_host (Some (\<lambda>x. x = PRef 0)) (PRef 0) chain_world"
    using scope_skips_root[of "PRef 0" "\<lambda>x. False" "\<lambda>x. x = PRef 0" 3 quiet_host chain_world]
    by simp
  with run show ?thesis by (simp add: chain_world_def)
qed

subsection \<open>The state-migration hook\<close>





text \<open>
  With the interceptor installed, the \<open>import copy\<close> of the snapshot is itself
  recorded: after \<open>reload(M)\<close> the graph holds the edge from M to \<open>copy\<close>.
\<close>

lemma import_copy_recorded:
  "reload 1 quiet_host None (PRef 3) enabled_hook_world
     = Some (Return ()
         \<lparr>visited = {PRef 3},
          calls = [EvReload (PRef 3),
            EvHook (PRef 101) [(''__name__'', PStr ''M''), (''__file__'', PStr ''M.py''),
               (''__reload__'', PRef 101), (''counter'', PStr ''7''), (''cache'', PRef 102)]],
          glob = enabled_hook_world\<lparr>dependencies := [PStr ''M'' \<mapsto> [PRef 7]]\<rparr>\<rparr>)"
  by (simp add: reload_def in_blacklist_def Let_def reload_module_def enabled_hook_world_def
        enable_def getattr_default_def priv_deepcopy_module_dict_def import_copy_def del_key_def
        quiet_host_def getattr_def ex_objs_def module_obj_def hook_world_def initial_world_def
        hook_objs_def priv_import_def resolve_import_def hasattr_def record_import_def
        actual_parent_def reloader_globals_def dict_get_def priv_add_dependency_def key_of_def
        isinstance_module_def ex_sys_modules_def)


subsection \<open>The blacklist\<close>

lemma listed_cong:
  "objs w' = objs w \<Longrightarrow> blacklist w' = blacklist w \<Longrightarrow> listed w' C c = listed w C c"
  by (simp add: listed_def in_blacklist_def getattr_objs[of w' w])

lemma import_copy_listed:
  assumes h: "keeps_listed h C c" and w: "listed w C c"
  shows "listed (state_of (import_copy h w)) C c"
proof (cases "import_hooked w")
  case False
  with h w show ?thesis by (simp add: import_copy_def keeps_listed_def)
next
  case True
  define w1 where "w1 = w\<lparr>parent := PStr ''copy'', parent_from_list := None\<rparr>"
  have "listed w1 C c" using w by (simp add: w1_def listed_def in_blacklist_def)
  with h have b: "listed (state_of (baseimport h ''copy'' (Some reloader_globals) None None 0 w1)) C c"
    by (simp add: keeps_listed_def)
  from import_frame[of h "''copy''" "Some reloader_globals" None None 0 w]
  have "listed (state_of (priv_import h ''copy'' (Some reloader_globals) None None 0 w)) C c
      = listed (state_of (baseimport h ''copy'' (Some reloader_globals) None None 0 w1)) C c"
    by (intro listed_cong) (simp_all add: Let_def w1_def)
  with b True show ?thesis by (simp add: import_copy_def)
qed

lemma deepcopy_module_dict_listed:
  assumes h: "keeps_listed h C c" and w: "listed w C c"
  shows "listed (state_of (priv_deepcopy_module_dict h m w)) C c"
proof (cases "import_copy h w")
  case (Raise e wi)
  with import_copy_listed[OF h w] show ?thesis by (simp add: priv_deepcopy_module_dict_def)
next
  case (Return cp wi)
  with import_copy_listed[OF h w] have "listed wi C c" by simp
  with h have "listed (state_of (deepcopy h d wi)) C c" for d
    by (simp add: keeps_listed_def)
  with Return \<open>listed wi C c\<close> show ?thesis
    by (auto simp: priv_deepcopy_module_dict_def Let_def split: pyval.splits)
qed

lemma reload_module_listed:
  assumes h: "keeps_listed h C c" and w: "listed (glob rs) C c"
  shows "listed (glob (state_of (reload_module h m name rs))) C c"
proof -
  define w1 where "w1 = (glob rs)\<lparr>dependencies := (dependencies (glob rs))(name := None), parent := name\<rparr>"
  have w1: "listed w1 C c" using w by (simp add: w1_def listed_def in_blacklist_def)
  from h have kr: "listed v C c \<Longrightarrow> listed (state_of (imp_reload h m v)) C c" for v
    by (simp add: keeps_listed_def)
  from h have kc: "listed v C c \<Longrightarrow> listed (state_of (call_hook h cb d v)) C c" for v cb d
    by (simp add: keeps_listed_def)
  have up: "listed v C c \<Longrightarrow> listed (v\<lparr>parent := PNone\<rparr>) C c" for v :: "'a world"
    by (simp add: listed_def in_blacklist_def)
  show ?thesis
  proof (cases "getattr_default w1 m ''__reload__'' PNone \<noteq> PNone")
    case False
    show ?thesis
    proof (cases "imp_reload h m w1")
      case R: (Return u w3)
      with kr[OF w1] have "listed w3 C c" by simp
      with False R show ?thesis
        unfolding reload_module_def w1_def[symmetric] Let_def by (simp add: up)
    next
      case R: (Raise e w3)
      with kr[OF w1] have "listed w3 C c" by simp
      with False R show ?thesis
        unfolding reload_module_def w1_def[symmetric] Let_def by simp
    qed
  next
    case True
    note kd = deepcopy_module_dict_listed[OF h w1, of m]
    show ?thesis
    proof (cases "priv_deepcopy_module_dict h m w1")
      case (Raise e w2)
      with kd True show ?thesis
        unfolding reload_module_def w1_def[symmetric] Let_def by simp
    next
      case (Return d w2)
      with kd have w2: "listed w2 C c" by simp
      show ?thesis
      proof (cases "imp_reload h m w2")
        case (Raise e w3)
        with kr[OF w2] True Return show ?thesis
          unfolding reload_module_def w1_def[symmetric] Let_def by simp
      next
        case R3: (Return u w3)
        with kr[OF w2] have w3: "listed w3 C c" by simp
        define cb where "cb = getattr_default w1 m ''__reload__'' PNone"
        from kc[OF w3] have k4: "listed (state_of (call_hook h cb d w3)) C c" .
        show ?thesis
        proof (cases "call_hook h cb d w3")
          case R4: (Return u' w4)
          with k4 have "listed w4 C c" by simp
          with True Return R3 R4 show ?thesis
            unfolding reload_module_def w1_def[symmetric] Let_def cb_def[symmetric]
            by (simp add: up)
        next
          case R4: (Raise e w4)
          with k4 have "listed w4 C c" by simp
          with True Return R3 R4 show ?thesis
            unfolding reload_module_def w1_def[symmetric] Let_def cb_def[symmetric]
            by simp
        qed
      qed
    qed
  qed
qed

lemma blacklisted_returns_at_once:
  "getattr (glob rs) m ''__name__'' = Inr name \<Longrightarrow> in_blacklist (glob rs) name \<Longrightarrow>
     priv_reload (Suc n) h sc m rs = Some (Return () rs)"
  by simp

lemma reload_spares_listed:
  assumes h: "keeps_listed h C c" and w: "listed w C c"
    and r: "reload n h sc A w = Some r"
  shows "C \<notin> set (reloaded (calls (state_of r)))"
proof -
  define Q where "Q = (\<lambda>rs :: 'a rstate. listed (glob rs) C c \<and> C \<notin> set (reloaded (calls rs)))"
  have "Q (state_of r)"
  proof (rule priv_reload_invariant[where Q = Q and ok = "\<lambda>m. m \<noteq> C" and h = h])
    show "\<And>m rs. Q rs \<Longrightarrow> Q (rs\<lparr>visited := insert m (visited rs)\<rparr>)"
      by (simp add: Q_def)
    show "\<And>m name rs. Q rs \<Longrightarrow> getattr (glob rs) m ''__name__'' = Inr name
        \<Longrightarrow> \<not> in_blacklist (glob rs) name \<Longrightarrow> m \<noteq> C"
      by (auto simp: Q_def listed_def)
    show "\<And>m name rs. Q rs \<Longrightarrow> m \<noteq> C \<Longrightarrow> Q (state_of (reload_module h m name rs))"
    proof -
      fix m name and rs :: "'a rstate"
      assume q: "Q rs" and m: "m \<noteq> C"
      from reload_module_calls[of h m name rs] obtain new where
        "calls (state_of (reload_module h m name rs)) = calls rs @ new"
        "reloaded new = [] \<or> reloaded new = [m]" by blast
      with q m have "C \<notin> set (reloaded (calls (state_of (reload_module h m name rs))))"
        by (auto simp: Q_def)
      moreover from q have "listed (glob (state_of (reload_module h m name rs))) C c"
        by (auto simp: Q_def intro: reload_module_listed[OF h])
      ultimately show "Q (state_of (reload_module h m name rs))" by (simp add: Q_def)
    qed
    show "Q \<lparr>visited = {}, calls = [], glob = w\<rparr>" using w by (simp add: Q_def)
    show "priv_reload n h sc A \<lparr>visited = {}, calls = [], glob = w\<rparr> = Some r"
      using r by (simp add: reload_def)
  qed
  then show ?thesis by (simp add: Q_def)
qed

text \<open>
  C5. Let the module \<open>C\<close> have a blacklisted name. With a host that keeps \<open>C\<close>
  listed (no host operation renames \<open>C\<close> or takes its name off the blacklist), no
  \<open>reload\<close>, of any module, for any graph and scope, hands \<open>C\<close> to the reload
  primitive (\<open>_reload\<close> of such a module returns at once,
  \<open>blacklisted_returns_at_once\<close>). The interceptor never reads the blacklist: an
  import nested under the parent \<open>p\<close> that resolves to a module \<open>C\<close> with a
  \<open>__file__\<close> puts \<open>C\<close> on the list that \<open>get_dependencies\<close> returns for the
  module \<open>q\<close> the import is attributed to (\<open>p\<close>, or the calling submodule of
  \<open>p\<close>), whatever the blacklist holds.
\<close>

theorem blacklist_skips_reload_not_tracking:
  "(keeps_listed h C c \<and> reload n h sc A w = Some r
      \<and> getattr w C ''__name__'' = Inr c \<and> in_blacklist w c
    \<longrightarrow> C \<notin> set (reloaded (calls (state_of r))))
   \<and> (parent wi = PStr p
      \<and> baseimport hi name globals locals fromlist level
           (wi\<lparr>parent := PStr name, parent_from_list := fromlist\<rparr>) = Return base wb
      \<and> base \<noteq> PNone
      \<and> resolve_import wb name fromlist base = Inr (C, subs)
      \<and> hasattr wb C ''__file__''
      \<and> actual_parent wb (PStr p) (parent_from_list wi) globals = Inr (PStr q)
    \<longrightarrow> (\<exists>w' l. priv_import hi name globals locals fromlist level wi = Return base w'
           \<and> blacklist w' = blacklist wb
           \<and> get_dependencies w' (PStr q) = Inr (Some l) \<and> C \<in> set l))"
proof (intro conjI impI)
  assume a: "keeps_listed h C c \<and> reload n h sc A w = Some r
      \<and> getattr w C ''__name__'' = Inr c \<and> in_blacklist w c"
  then show "C \<notin> set (reloaded (calls (state_of r)))"
    by (intro reload_spares_listed[of h C c w n sc A r]) (simp_all add: listed_def)
next
  assume a: "parent wi = PStr p
      \<and> baseimport hi name globals locals fromlist level
           (wi\<lparr>parent := PStr name, parent_from_list := fromlist\<rparr>) = Return base wb
      \<and> base \<noteq> PNone
      \<and> resolve_import wb name fromlist base = Inr (C, subs)
      \<and> hasattr wb C ''__file__''
      \<and> actual_parent wb (PStr p) (parent_from_list wi) globals = Inr (PStr q)"
  have key: "key_of wb (PStr q) = Inr (PStr q)"
    by (simp add: key_of_def isinstance_module_def)
  define l where "l = append_absent (case dependencies wb (PStr q) of None \<Rightarrow> [] | Some l0 \<Rightarrow> l0) (C # subs)"
  define w' where "w' = wb\<lparr>dependencies := (dependencies wb)(PStr q \<mapsto> l),
       parent := parent wi, parent_from_list := parent_from_list wi\<rparr>"
  have "priv_import hi name globals locals fromlist level wi = Return base w'"
    using a key
    by (simp add: priv_import_def Let_def record_import_def
        priv_add_dependency_def w'_def l_def)
  moreover have "blacklist w' = blacklist wb" by (simp add: w'_def)
  moreover have "get_dependencies w' (PStr q) = Inr (Some l)"
    by (simp add: get_dependencies_def key_of_def isinstance_module_def w'_def)
  moreover have "C \<in> set l" by (simp add: l_def set_append_absent)
  ultimately show "\<exists>w' l. priv_import hi name globals locals fromlist level wi = Return base w'
           \<and> blacklist w' = blacklist wb
           \<and> get_dependencies w' (PStr q) = Inr (Some l) \<and> C \<in> set l"
    by blast
qed

lemma quiet_host_keeps_listed: "keeps_listed quiet_host C c"
  by (simp add: keeps_listed_def quiet_host_def split: option.splits)

theorem blacklist_skips_reload_not_tracking_witness:
  "keeps_listed quiet_host (PRef 2) (PStr ''C'')
   \<and> getattr blacklist_world (PRef 2) ''__name__'' = Inr (PStr ''C'')
   \<and> in_blacklist blacklist_world (PStr ''C'')
   \<and> (\<exists>r. reload 3 quiet_host None (PRef 0) blacklist_world = Some r
         \<and> reloaded (calls (state_of r)) = [PRef 1, PRef 0]
         \<and> PRef 2 \<notin> set (reloaded (calls (state_of r))))
   \<and> in_blacklist importing_world (PStr ''C'')
   \<and> parent importing_world = PStr ''B''
   \<and> baseimport quiet_host ''C'' (Some [''__name__'' \<mapsto> PStr ''B'']) None None 0
        (importing_world\<lparr>parent := PStr ''C'', parent_from_list := None\<rparr>)
       = Return (PRef 2) (importing_world\<lparr>parent := PStr ''C'', parent_from_list := None\<rparr>)
   \<and> resolve_import (importing_world\<lparr>parent := PStr ''C'', parent_from_list := None\<rparr>)
        ''C'' None (PRef 2) = Inr (PRef 2, [])
   \<and> hasattr (importing_world\<lparr>parent := PStr ''C'', parent_from_list := None\<rparr>) (PRef 2) ''__file__''
   \<and> actual_parent (importing_world\<lparr>parent := PStr ''C'', parent_from_list := None\<rparr>)
        (PStr ''B'') (parent_from_list importing_world) (Some [''__name__'' \<mapsto> PStr ''B''])
       = Inr (PStr ''B'')
   \<and> (\<exists>w' l. priv_import quiet_host ''C'' (Some [''__name__'' \<mapsto> PStr ''B'']) None None 0
                 importing_world = Return (PRef 2) w'
         \<and> blacklist w' = Some {PStr ''C''}
         \<and> get_dependencies w' (PStr ''B'') = Inr (Some l) \<and> PRef 2 \<in> set l)"
proof -
  let ?g = "Some [''__name__'' \<mapsto> PStr ''B'']"
  let ?wb = "importing_world\<lparr>parent := PStr ''C'', parent_from_list := None\<rparr>"
  have n: "getattr blacklist_world (PRef 2) ''__name__'' = Inr (PStr ''C'')"
    by (simp add: blacklist_world_def chain_world_def)
  have b: "in_blacklist blacklist_world (PStr ''C'')" "in_blacklist importing_world (PStr ''C'')"
    by (simp_all add: blacklist_world_def importing_world_def in_blacklist_def)
  have run: "\<exists>r. reload 3 quiet_host None (PRef 0) blacklist_world = Some r
         \<and> reloaded (calls (state_of r)) = [PRef 1, PRef 0]"
    by (simp add: reload_def numeral_3_eq_3 blacklist_world_def chain_world_def Let_def
        reload_module_def getattr_default_def quiet_host_def in_blacklist_def
        ex_world_def initial_world_def getattr_def ex_objs_def module_obj_def)
  then obtain r where r: "reload 3 quiet_host None (PRef 0) blacklist_world = Some r"
    "reloaded (calls (state_of r)) = [PRef 1, PRef 0]" by blast
  note inst = blacklist_skips_reload_not_tracking[where h = quiet_host and n = 3 and sc = None
      and A = "PRef 0" and w = blacklist_world and r = r and C = "PRef 2" and c = "PStr ''C''"
      and wi = importing_world and p = "''B''" and q = "''B''" and hi = quiet_host
      and name = "''C''" and globals = ?g
      and locals = None and fromlist = None and level = 0 and base = "PRef 2"
      and wb = ?wb and subs = "[]"]
  have 1: "PRef 2 \<notin> set (reloaded (calls (state_of r)))"
    using inst quiet_host_keeps_listed r n b by blast
  have p: "parent importing_world = PStr ''B''"
    by (simp add: importing_world_def)
  have bi: "baseimport quiet_host ''C'' ?g None None 0 ?wb = Return (PRef 2) ?wb"
    by (simp add: quiet_host_def importing_world_def ex_world_def initial_world_def
        ex_sys_modules_def)
  have ri: "resolve_import ?wb ''C'' None (PRef 2) = Inr (PRef 2, [])"
    by (simp add: resolve_import_def)
  have f: "hasattr ?wb (PRef 2) ''__file__''"
    by (simp add: hasattr_def getattr_def importing_world_def ex_world_def initial_world_def
        ex_objs_def module_obj_def)
  have ap: "actual_parent ?wb (PStr ''B'') (parent_from_list importing_world) ?g = Inr (PStr ''B'')"
    by (simp add: actual_parent_def importing_world_def ex_world_def initial_world_def)
  have bl: "blacklist ?wb = Some {PStr ''C''}"
    by (simp add: importing_world_def)
  have imp: "\<exists>w' l. priv_import quiet_host ''C'' ?g None None 0 importing_world = Return (PRef 2) w'
         \<and> blacklist w' = Some {PStr ''C''}
         \<and> get_dependencies w' (PStr ''B'') = Inr (Some l) \<and> PRef 2 \<in> set l"
    using inst p bi ri f ap bl by simp
  from quiet_host_keeps_listed n b r 1 p bi ri f ap imp show ?thesis by blast
qed

subsection \<open>No duplicates in the graph\<close>

lemma append_absent_snoc:
  "append_absent l (ms @ [m]) =
     (if m \<in> set (append_absent l ms) then append_absent l ms else append_absent l ms @ [m])"
  by (induction ms arbitrary: l) auto

lemma append_absent_first_occurrences:
  "append_absent l ms = l @ first_occurrences (filter (\<lambda>x. x \<notin> set l) ms)"
proof (induction ms rule: rev_induct)
  case Nil
  then show ?case by (simp add: first_occurrences_def)
next
  case (snoc m ms)
  then show ?case
    by (auto simp: append_absent_snoc first_occurrences_def set_append_absent)
qed

lemma nodup_update:
  "nodup w \<Longrightarrow> nodup (w\<lparr>parent := p\<rparr>)"
  "nodup w \<Longrightarrow> nodup (w\<lparr>parent_from_list := fl\<rparr>)"
  "nodup w \<Longrightarrow> nodup (w\<lparr>blacklist := bl\<rparr>)"
  "nodup w \<Longrightarrow> nodup (w\<lparr>import_hooked := b\<rparr>)"
  "nodup w \<Longrightarrow> nodup (w\<lparr>dependencies := (dependencies w)(k := None)\<rparr>)"
  "nodup w \<Longrightarrow> distinct l \<Longrightarrow> nodup (w\<lparr>dependencies := (dependencies w)(k \<mapsto> l)\<rparr>)"
  by (auto simp: nodup_def)

lemma add_dependency_nodup:
  "nodup w \<Longrightarrow> nodup (state_of (priv_add_dependency p m subs w))"
proof -
  assume w: "nodup w"
  show ?thesis
  proof (cases "key_of w p")
    case (Inl e)
    with w show ?thesis by (simp add: priv_add_dependency_def)
  next
    case (Inr k)
    have "distinct (case dependencies w k of None \<Rightarrow> [] | Some l0 \<Rightarrow> l0)"
      using w by (auto simp: nodup_def split: option.splits)
    then have "distinct (append_absent (case dependencies w k of None \<Rightarrow> [] | Some l0 \<Rightarrow> l0) (m # subs))"
      by (rule distinct_append_absent)
    with w Inr show ?thesis
      by (simp add: priv_add_dependency_def Let_def nodup_update)
  qed
qed

lemma record_import_nodup:
  "nodup w \<Longrightarrow> nodup (state_of (record_import par pfl globals m subs w))"
  by (auto simp: record_import_def Let_def add_dependency_nodup split: sum.splits option.splits)

lemma import_nodup:
  assumes h: "keeps_nodup h" and w: "nodup w"
  shows "nodup (state_of (priv_import h name globals locals fromlist level w))"
proof -
  define w1 where "w1 = w\<lparr>parent := PStr name, parent_from_list := fromlist\<rparr>"
  have "nodup w1" unfolding w1_def using w by (simp add: nodup_def)
  with h have b: "nodup (state_of (baseimport h name globals locals fromlist level w1))"
    by (simp add: keeps_nodup_def)
  show ?thesis
  proof (cases "baseimport h name globals locals fromlist level w1")
    case (Raise e w2)
    with b show ?thesis by (simp add: priv_import_def Let_def w1_def)
  next
    case (Return base w2)
    with b have w2: "nodup w2" by simp
    show ?thesis
    proof (cases "base = PNone")
      case True
      with Return w2 show ?thesis
        by (simp add: priv_import_def Let_def w1_def[symmetric] nodup_update)
    next
      case False
      show ?thesis
      proof (cases "resolve_import w2 name fromlist base")
        case (Inl e)
        with Return w2 False show ?thesis
          by (simp add: priv_import_def Let_def w1_def[symmetric])
      next
        case (Inr ms)
        obtain m subs where ms: "ms = (m, subs)" by (cases ms)
        define rr where "rr = record_import (parent w) (parent_from_list w) globals m subs w2"
        have rn: "nodup (state_of rr)" unfolding rr_def using w2 by (rule record_import_nodup)
        show ?thesis
        proof (cases rr)
          case R: (Return u w3)
          with rn have "nodup w3" by simp
          with Return False Inr ms R show ?thesis
            by (simp add: priv_import_def Let_def w1_def[symmetric] rr_def[symmetric] nodup_update)
        next
          case R: (Raise e w3)
          with rn have "nodup w3" by simp
          with Return False Inr ms R show ?thesis
            by (simp add: priv_import_def Let_def w1_def[symmetric] rr_def[symmetric])
        qed
      qed
    qed
  qed
qed

lemma reload_module_nodup:
  assumes h: "keeps_nodup h" and w: "nodup (glob rs)"
  shows "nodup (glob (state_of (reload_module h m name rs)))"
proof -
  define w1 where "w1 = (glob rs)\<lparr>dependencies := (dependencies (glob rs))(name := None), parent := name\<rparr>"
  have w1: "nodup w1" unfolding w1_def using w by (auto simp: nodup_def)
  from h have kr: "nodup w \<Longrightarrow> nodup (state_of (imp_reload h m w))" for w
    by (simp add: keeps_nodup_def)
  from h have kc: "nodup w \<Longrightarrow> nodup (state_of (call_hook h c d w))" for w c d
    by (simp add: keeps_nodup_def)
  from h have kd: "nodup w \<Longrightarrow> nodup (state_of (deepcopy h d w))" for w d
    by (simp add: keeps_nodup_def)
  have ki: "nodup (state_of (import_copy h w1))"
  proof (cases "import_hooked w1")
    case True
    with import_nodup[OF h w1] show ?thesis by (simp add: import_copy_def)
  next
    case False
    with h w1 show ?thesis by (simp add: import_copy_def keeps_nodup_def)
  qed
  have kdm: "nodup (state_of (priv_deepcopy_module_dict h m w1))"
  proof (cases "import_copy h w1")
    case (Raise e wi)
    with ki show ?thesis by (simp add: priv_deepcopy_module_dict_def)
  next
    case (Return c wi)
    with ki have "nodup wi" by simp
    with kd Return show ?thesis
      by (auto simp: priv_deepcopy_module_dict_def Let_def split: pyval.splits)
  qed
  show ?thesis
  proof (cases "getattr_default w1 m ''__reload__'' PNone \<noteq> PNone")
    case False
    show ?thesis
    proof (cases "imp_reload h m w1")
      case R: (Return u w3)
      with kr[OF w1] have "nodup w3" by simp
      with False R show ?thesis
        unfolding reload_module_def w1_def[symmetric] Let_def by (simp add: nodup_update)
    next
      case R: (Raise e w3)
      with kr[OF w1] have "nodup w3" by simp
      with False R show ?thesis
        unfolding reload_module_def w1_def[symmetric] Let_def by simp
    qed
  next
    case True
    show ?thesis
    proof (cases "priv_deepcopy_module_dict h m w1")
      case (Raise e w2)
      with kdm True show ?thesis
        unfolding reload_module_def w1_def[symmetric] Let_def by simp
    next
      case (Return d w2)
      with kdm have w2: "nodup w2" by simp
      show ?thesis
      proof (cases "imp_reload h m w2")
        case (Raise e w3)
        with kr[OF w2] True Return show ?thesis
          unfolding reload_module_def w1_def[symmetric] Let_def by simp
      next
        case R3: (Return u w3)
        with kr[OF w2] have w3: "nodup w3" by simp
        define cb where "cb = getattr_default w1 m ''__reload__'' PNone"
        from kc[OF w3] have k4: "nodup (state_of (call_hook h cb d w3))" .
        show ?thesis
        proof (cases "call_hook h cb d w3")
          case R4: (Return u' w4)
          with k4 have "nodup w4" by simp
          with True Return R3 R4 show ?thesis
            unfolding reload_module_def w1_def[symmetric] Let_def cb_def[symmetric]
            by (simp add: nodup_update)
        next
          case R4: (Raise e w4)
          with k4 have "nodup w4" by simp
          with True Return R3 R4 show ?thesis
            unfolding reload_module_def w1_def[symmetric] Let_def cb_def[symmetric]
            by simp
        qed
      qed
    qed
  qed
qed

lemma reload_deps_glob_invariant:
  assumes rec: "\<And>dep rs r. P (glob rs) \<Longrightarrow> rec dep rs = Some r \<Longrightarrow> P (glob (state_of r))"
  shows "P (glob rs) \<Longrightarrow> reload_deps rec sc deps rs = Some r \<Longrightarrow> P (glob (state_of r))"
proof (induction deps arbitrary: rs)
  case Nil
  then show ?case by auto
next
  case (Cons dep deps)
  show ?case
  proof (cases "dep \<in> visited rs \<or> (case sc of None \<Rightarrow> False | Some s \<Rightarrow> \<not> s dep)")
    case True
    with Cons.prems have "reload_deps rec sc deps rs = Some r"
      by (auto split: if_splits)
    with Cons.prems(1) show ?thesis by (rule Cons.IH)
  next
    case False
    with Cons.prems obtain r1 where r1: "rec dep rs = Some r1"
      by (auto split: option.splits)
    from rec[OF Cons.prems(1) r1] have p1: "P (glob (state_of r1))" .
    show ?thesis
    proof (cases r1)
      case (Raise e rs')
      with Cons.prems False r1 p1 show ?thesis by auto
    next
      case (Return u rs')
      with Cons.prems False r1 have "reload_deps rec sc deps rs' = Some r" by auto
      with p1 Return show ?thesis by (auto intro: Cons.IH)
    qed
  qed
qed

lemma priv_reload_glob_invariant:
  assumes step: "\<And>m name rs. P (glob rs) \<Longrightarrow> P (glob (state_of (reload_module h m name rs)))"
  shows "P (glob rs) \<Longrightarrow> priv_reload n h sc m rs = Some r \<Longrightarrow> P (glob (state_of r))"
proof (induction n arbitrary: m rs r)
  case 0
  then show ?case by simp
next
  case (Suc n)
  show ?case
  proof (cases "getattr (glob rs) m ''__name__''")
    case (Inl e)
    with Suc.prems show ?thesis by auto
  next
    case (Inr name)
    show ?thesis
    proof (cases "in_blacklist (glob rs) name")
      case True
      with Suc.prems Inr show ?thesis by auto
    next
      case False
      define rs1 where "rs1 = rs\<lparr>visited := insert m (visited rs)\<rparr>"
      define loop where "loop = (case dependencies (glob rs1) name of
                        None \<Rightarrow> Some (Return () rs1)
                      | Some deps \<Rightarrow> reload_deps (priv_reload n h sc) sc (rev deps) rs1)"
      from Suc.prems Inr False have r: "(case loop of None \<Rightarrow> None
                | Some (Raise e rs2) \<Rightarrow> Some (Raise e rs2)
                | Some (Return u rs2) \<Rightarrow> Some (reload_module h m name rs2)) = Some r"
        unfolding loop_def rs1_def by (simp add: Let_def)
      then obtain r2 where r2: "loop = Some r2" by (auto split: option.splits)
      have p1: "P (glob rs1)" using Suc.prems(1) by (simp add: rs1_def)
      have p2: "P (glob (state_of r2))"
      proof (cases "dependencies (glob rs1) name")
        case None
        with r2 p1 show ?thesis by (auto simp: loop_def)
      next
        case (Some deps)
        with r2 have "reload_deps (priv_reload n h sc) sc (rev deps) rs1 = Some r2"
          by (simp add: loop_def)
        with p1 show ?thesis by (rule reload_deps_glob_invariant[rotated]) (rule Suc.IH)
      qed
      show ?thesis
      proof (cases r2)
        case (Raise e rs2)
        with r r2 p2 show ?thesis by auto
      next
        case (Return u rs2)
        with r r2 have "r = reload_module h m name rs2" by simp
        with p2 Return show ?thesis by (simp add: step)
      qed
    qed
  qed
qed

lemma run_call_nodup:
  assumes h: "keeps_nodup h" and w: "nodup w" and r: "run_call h c w = Some w'"
  shows "nodup w'"
proof (cases c)
  case (CallImport name globals locals fromlist level)
  with r import_nodup[OF h w] show ?thesis by auto
next
  case (CallReload n scope m)
  with r obtain res where res: "reload n h scope m w = Some res" "w' = glob (state_of res)"
    by (auto split: option.splits)
  have "nodup (glob (state_of res))"
  proof (rule priv_reload_glob_invariant[where P = nodup and h = h])
    show "\<And>m name rs. nodup (glob rs) \<Longrightarrow> nodup (glob (state_of (reload_module h m name rs)))"
      by (rule reload_module_nodup[OF h])
    show "nodup (glob \<lparr>visited = {}, calls = [], glob = w\<rparr>)" using w by simp
    show "priv_reload n h scope m \<lparr>visited = {}, calls = [], glob = w\<rparr> = Some res"
      using res by (simp add: reload_def)
  qed
  with res show ?thesis by simp
next
  case (CallEnable bl)
  with r w show ?thesis by (cases bl) (auto simp: enable_def nodup_def Let_def)
next
  case CallDisable
  with r show ?thesis by (auto simp: disable_def nodup_def)
qed

lemma run_calls_nodup:
  "keeps_nodup h \<Longrightarrow> nodup w \<Longrightarrow> run_calls h cs w = Some w' \<Longrightarrow> nodup w'"
proof (induction cs arbitrary: w)
  case Nil
  then show ?case by simp
next
  case (Cons c cs)
  from Cons.prems(3) obtain w1 where w1: "run_call h c w = Some w1" "run_calls h cs w1 = Some w'"
    by (auto split: option.splits)
  from run_call_nodup[OF Cons.prems(1,2) w1(1)] have "nodup w1" .
  from Cons.IH[OF Cons.prems(1) this w1(2)] show ?case .
qed

text \<open>
  C8. The graph starts empty. After any sequence of interceptor calls, reloads,
  \<open>enable\<close> and \<open>disable\<close> on a state whose lists are duplicate-free, with a host
  whose operations keep them so, every list that \<open>get_dependencies\<close> returns is
  duplicate-free. Recording an edge appends to the parent's list the modules of the
  call that are not yet on it, each once, in the order of their first occurrence, and
  leaves the elements already there in place.
\<close>

theorem dependencies_no_duplicates:
  "nodup (initial_world os sm hs)
   \<and> (keeps_nodup h \<and> nodup w \<and> run_calls h cs w = Some w'
        \<and> get_dependencies w' p = Inr (Some l)
      \<longrightarrow> distinct l)
   \<and> (nodup w \<and> key_of w p = Inr k
      \<longrightarrow> (\<exists>old. old = (case dependencies w k of None \<Rightarrow> [] | Some l0 \<Rightarrow> l0)
            \<and> priv_add_dependency p m subs w
                = Return () (w\<lparr>dependencies := (dependencies w)
                     (k \<mapsto> old @ first_occurrences (filter (\<lambda>x. x \<notin> set old) (m # subs)))\<rparr>)
            \<and> distinct (old @ first_occurrences (filter (\<lambda>x. x \<notin> set old) (m # subs)))))"
proof (intro conjI impI)
  show "nodup (initial_world os sm hs)"
    by (simp add: nodup_def initial_world_def)
next
  assume a: "keeps_nodup h \<and> nodup w \<and> run_calls h cs w = Some w'
        \<and> get_dependencies w' p = Inr (Some l)"
  then have "nodup w'" by (auto intro: run_calls_nodup)
  moreover from a obtain k where "dependencies w' k = Some l"
    by (auto simp: get_dependencies_def split: sum.splits)
  ultimately show "distinct l" by (auto simp: nodup_def)
next
  assume a: "nodup w \<and> key_of w p = Inr k"
  define old where "old = (case dependencies w k of None \<Rightarrow> [] | Some l0 \<Rightarrow> l0)"
  have d: "distinct old" using a by (auto simp: old_def nodup_def split: option.splits)
  have e: "append_absent old (m # subs) = old @ first_occurrences (filter (\<lambda>x. x \<notin> set old) (m # subs))"
    by (rule append_absent_first_occurrences)
  have "priv_add_dependency p m subs w
                = Return () (w\<lparr>dependencies := (dependencies w)
                     (k \<mapsto> old @ first_occurrences (filter (\<lambda>x. x \<notin> set old) (m # subs)))\<rparr>)"
    using a e by (simp add: priv_add_dependency_def Let_def old_def)
  moreover have "distinct (old @ first_occurrences (filter (\<lambda>x. x \<notin> set old) (m # subs)))"
    using distinct_append_absent[OF d, of "m # subs"] e by simp
  ultimately show "\<exists>old. old = (case dependencies w k of None \<Rightarrow> [] | Some l0 \<Rightarrow> l0)
            \<and> priv_add_dependency p m subs w
                = Return () (w\<lparr>dependencies := (dependencies w)
                     (k \<mapsto> old @ first_occurrences (filter (\<lambda>x. x \<notin> set old) (m # subs)))\<rparr>)
            \<and> distinct (old @ first_occurrences (filter (\<lambda>x. x \<notin> set old) (m # subs)))"
    unfolding old_def by blast
qed

lemma quiet_host_keeps_nodup: "keeps_nodup quiet_host"
  by (simp add: keeps_nodup_def quiet_host_def split: option.splits)

lemma a_imports_run:
  "run_calls quiet_host a_imports ex_world
     = Some (ex_world\<lparr>import_hooked := True,
                      dependencies := [PStr ''A'' \<mapsto> [PRef 1, PRef 2]]\<rparr>)"
  by (simp add: a_imports_def a_globals_def enable_def priv_import_def Let_def quiet_host_def
      ex_world_def initial_world_def ex_sys_modules_def resolve_import_def hasattr_def getattr_def
      ex_objs_def module_obj_def record_import_def dict_get_def truthy_def
      priv_add_dependency_def key_of_def isinstance_module_def)

theorem dependencies_no_duplicates_witness:
  "keeps_nodup quiet_host \<and> nodup ex_world
   \<and> run_calls quiet_host a_imports ex_world
       = Some (ex_world\<lparr>import_hooked := True,
                        dependencies := [PStr ''A'' \<mapsto> [PRef 1, PRef 2]]\<rparr>)
   \<and> get_dependencies (ex_world\<lparr>import_hooked := True,
                        dependencies := [PStr ''A'' \<mapsto> [PRef 1, PRef 2]]\<rparr>) (PRef 0)
       = Inr (Some [PRef 1, PRef 2])
   \<and> distinct [PRef 1, PRef 2]
   \<and> nodup chain_world \<and> key_of chain_world (PRef 0) = Inr (PStr ''A'')
   \<and> priv_add_dependency (PRef 0) (PRef 1) [PRef 2, PRef 1, PRef 2] chain_world
       = Return () (chain_world\<lparr>dependencies := (dependencies chain_world)
                       (PStr ''A'' \<mapsto> [PRef 1, PRef 2])\<rparr>)"
proof -
  let ?w' = "ex_world\<lparr>import_hooked := True, dependencies := [PStr ''A'' \<mapsto> [PRef 1, PRef 2]]\<rparr>"
  have n0: "nodup ex_world"
    using dependencies_no_duplicates[where os = ex_objs and sm = ex_sys_modules and hs = "()",
        THEN conjunct1]
    by (simp add: ex_world_def)
  have g: "get_dependencies ?w' (PRef 0) = Inr (Some [PRef 1, PRef 2])"
    by (simp add: get_dependencies_def key_of_def isinstance_module_def ex_world_def
        initial_world_def ex_objs_def module_obj_def getattr_def)
  have d: "distinct [PRef 1, PRef 2 :: pyval]"
    using dependencies_no_duplicates[where h = quiet_host and w = ex_world and cs = a_imports
        and w' = ?w' and p = "PRef 0" and l = "[PRef 1, PRef 2]", THEN conjunct2, THEN conjunct1]
      quiet_host_keeps_nodup n0 a_imports_run g
    by blast
  have nc: "nodup chain_world"
    by (simp add: nodup_def chain_world_def)
  have k: "key_of chain_world (PRef 0) = Inr (PStr ''A'')"
    by (simp add: key_of_def isinstance_module_def chain_world_def ex_world_def
        initial_world_def ex_objs_def module_obj_def getattr_def)
  have a: "priv_add_dependency (PRef 0) (PRef 1) [PRef 2, PRef 1, PRef 2] chain_world
       = Return () (chain_world\<lparr>dependencies := (dependencies chain_world)
                       (PStr ''A'' \<mapsto> [PRef 1, PRef 2])\<rparr>)"
    using dependencies_no_duplicates[where w = chain_world and p = "PRef 0" and k = "PStr ''A''"
        and m = "PRef 1" and subs = "[PRef 2, PRef 1, PRef 2]", THEN conjunct2, THEN conjunct2]
      nc k
    by (simp add: first_occurrences_def chain_world_def)
  from quiet_host_keeps_nodup n0 a_imports_run g d nc k a show ?thesis by blast
qed

subsection \<open>Imports of modules without a file\<close>

lemma import_propagates:
  "baseimport h name globals locals fromlist level
       (w\<lparr>parent := PStr name, parent_from_list := fromlist\<rparr>) = Raise e wb
   \<Longrightarrow> priv_import h name globals locals fromlist level w = Raise e wb"
  by (simp add: priv_import_def Let_def)










subsection \<open>Exceptions and the saved context\<close>

text \<open>
  C3. The base import of \<open>from missing import bar\<close>, made while \<open>app\<close> is being
  imported, raises. The interceptor passes the exception on unchanged and records no
  edge, but it leaves with \<open>_parent\<close> and \<open>_parent_from_list\<close> still set to the
  failed call's name and from-list: the statements that restore the saved context
  (lines 235 and 236) are not reached.
\<close>

theorem import_error_leaves_context:
  "priv_import quiet_host ''missing'' None None (Some [''bar'']) 0 from_world
     = Raise (HostError ''ImportError'')
         (from_world\<lparr>parent := PStr ''missing'', parent_from_list := Some [''bar'']\<rparr>)
   \<and> parent from_world = PStr ''app'' \<and> parent_from_list from_world = None
   \<and> dependencies (state_of (priv_import quiet_host ''missing'' None None (Some [''bar'']) 0 from_world))
       = dependencies from_world"
  by (simp add: priv_import_def Let_def quiet_host_def from_world_def initial_world_def)

text \<open>
  C4. The reload primitive raises on module A, or the hook of module M raises. The
  exception leaves \<open>_reload\<close> with \<open>_parent\<close> still naming the module: the reset on
  line 150 is reached only when the reload and the hook return.
\<close>

theorem reload_error_leaves_parent:
  "reload 1 failing_host None (PRef 0) ex_world
     = Some (Raise (HostError ''SyntaxError'')
         \<lparr>visited = {PRef 0}, calls = [EvReload (PRef 0)], glob = ex_world\<lparr>parent := PStr ''A''\<rparr>\<rparr>)
   \<and> parent (glob (state_of (the (reload 1 failing_hook_host None (PRef 3) hook_world))))
       = PStr ''M''
   \<and> \<not> returns (the (reload 1 failing_hook_host None (PRef 3) hook_world))
   \<and> parent ex_world = PNone \<and> parent hook_world = PNone"
  by (simp add: reload_def in_blacklist_def Let_def reload_module_def
        getattr_default_def priv_deepcopy_module_dict_def import_copy_def del_key_def
        quiet_host_def failing_host_def failing_hook_host_def getattr_def ex_objs_def
        module_obj_def ex_world_def hook_world_def initial_world_def hook_objs_def)

subsection \<open>disable\<close>

lemma disable_fields:
  "blacklist (disable w) = None" "dependencies (disable w) = (\<lambda>k. None)"
  "parent (disable w) = PNone" "\<not> import_hooked (disable w)"
  "parent_from_list (disable w) = parent_from_list w"
  by (simp_all add: disable_def)

lemma disable_forgets: "get_dependencies (disable w) m = Inr None \<or> (\<exists>e. get_dependencies (disable w) m = Inl e)"
  by (simp add: get_dependencies_def disable_def split: sum.splits)

text \<open>
  C7. After \<open>enable\<close>, a failed \<open>from missing import bar\<close> and \<open>disable\<close>, the
  import entry point, the blacklist, the graph and \<open>_parent\<close> are reset, and
  \<open>get_dependencies\<close> knows no module, but \<open>_parent_from_list\<close> still holds the
  from-list of the failed import: \<open>disable\<close> does not assign it.
\<close>

theorem disable_keeps_from_list:
  "run_calls quiet_host failed_import_then_disable ex_world
     = Some (ex_world\<lparr>parent_from_list := Some [''bar'']\<rparr>)
   \<and> parent_from_list (disable (from_world\<lparr>parent_from_list := Some [''sys'']\<rparr>)) = Some [''sys'']
   \<and> get_dependencies (disable chain_world) (PRef 0) = Inr None"
  by (simp add: failed_import_then_disable_def enable_def disable_def priv_import_def Let_def
      quiet_host_def ex_world_def initial_world_def ex_sys_modules_def get_dependencies_def
      key_of_def isinstance_module_def getattr_def ex_objs_def module_obj_def chain_world_def)

end
